theory Spec2Isabelle
  imports Main
begin

section \<open>Data model\<close>

text \<open>
  The program is a console tic-tac-toe whose computer player searches the game tree
  with \<open>minimax\<close> or with \<open>alphabeta\<close>. A board is a Python list of
  one-character strings: \<open>' '\<close> for an empty cell, and the two marks (\<open>'X'\<close> and
  \<open>'O'\<close> in the game loop, but \<open>me\<close> and \<open>opp\<close> are parameters of every search
  function). A search returns the pair \<open>(value, move)\<close>, the move being \<open>None\<close> on a
  finished board.

  Two things the interpreter can raise are kept as values: \<open>IndexError\<close>, when a
  board shorter than nine cells is indexed by \<open>winner\<close>, and \<open>RecursionError\<close>, when the
  recursion goes deeper than the interpreter allows. The first argument \<open>d\<close> of the
  search functions is the number of nested calls still allowed.
\<close>

datatype error = IndexError | RecursionError

type_synonym cell = string
type_synonym board = "cell list"
type_synonym result = "int \<times> nat option"

definition LINES :: "(nat \<times> nat \<times> nat) list" where
  "LINES = [(0, 1, 2), (3, 4, 5), (6, 7, 8),
            (0, 3, 6), (1, 4, 7), (2, 5, 8),
            (0, 4, 8), (2, 4, 6)]"

definition getitem :: "board \<Rightarrow> nat \<Rightarrow> error + cell" where
  "getitem board i = (if i < length board then Inr (board ! i) else Inl IndexError)"

text \<open>
  \<open>winner\<close>: the loop over \<open>LINES\<close>. The test
  \<open>board[a] != ' ' and board[a] == board[b] == board[c]\<close> reads \<open>board[b]\<close> only when the
  first conjunct holds, and \<open>board[c]\<close> only when \<open>board[a] == board[b]\<close>.
\<close>

fun winner_loop :: "board \<Rightarrow> (nat \<times> nat \<times> nat) list \<Rightarrow> error + cell option" where
  "winner_loop board [] = Inr None"
| "winner_loop board ((a, b, c) # ls) =
     (case getitem board a of
        Inl e \<Rightarrow> Inl e
      | Inr x \<Rightarrow>
          if x \<noteq> '' '' then
            (case getitem board b of
               Inl e \<Rightarrow> Inl e
             | Inr y \<Rightarrow>
                 if x = y then
                   (case getitem board c of
                      Inl e \<Rightarrow> Inl e
                    | Inr z \<Rightarrow> if y = z then Inr (Some x) else winner_loop board ls)
                 else winner_loop board ls)
          else winner_loop board ls)"

definition winner :: "board \<Rightarrow> error + cell option" where
  "winner board = winner_loop board LINES"

definition moves :: "board \<Rightarrow> nat list" where
  "moves board = map fst (filter (\<lambda>(i, v). v = '' '') (enumerate 0 board))"

definition terminal :: "board \<Rightarrow> error + bool" where
  "terminal board =
     (case winner board of
        Inl e \<Rightarrow> Inl e
      | Inr w \<Rightarrow> Inr (w \<noteq> None \<or> moves board = []))"

definition utility :: "board \<Rightarrow> cell \<Rightarrow> cell \<Rightarrow> error + int" where
  "utility board me opp =
     (case winner board of
        Inl e \<Rightarrow> Inl e
      | Inr w \<Rightarrow> Inr (if w = Some me then 1 else if w = Some opp then - 1 else 0))"

section \<open>The two searches\<close>

text \<open>
  The last argument and the second component of the result are the global node counter
  (\<open>minimax_nodes\<close>, \<open>alphabeta_nodes\<close>) before and after the call. The \<open>for\<close> loop
  over \<open>moves(board)\<close> is the second function of each definition; \<open>best\<close> is the pair
  \<open>(best_val, best_move)\<close>. The update \<open>board[m := player]\<close> is the copy \<open>b2\<close> after
  \<open>b2[m] = player\<close>; \<open>m\<close> comes from \<open>moves(board)\<close> and is in range.
\<close>

function (sequential)
  minimax :: "nat \<Rightarrow> board \<Rightarrow> cell \<Rightarrow> cell \<Rightarrow> cell \<Rightarrow> nat \<Rightarrow> (error + result) \<times> nat"
and
  minimax_loop :: "nat \<Rightarrow> board \<Rightarrow> cell \<Rightarrow> cell \<Rightarrow> cell \<Rightarrow> nat list \<Rightarrow> result \<Rightarrow> nat
                   \<Rightarrow> (error + result) \<times> nat"
where
  "minimax 0 board player me opp n = (Inl RecursionError, n)"
| "minimax (Suc d) board player me opp n =
     (case terminal board of
        Inl e \<Rightarrow> (Inl e, n + 1)
      | Inr True \<Rightarrow>
          (case utility board me opp of
             Inl e \<Rightarrow> (Inl e, n + 1)
           | Inr u \<Rightarrow> (Inr (u, None), n + 1))
      | Inr False \<Rightarrow>
          minimax_loop d board player me opp (moves board)
            (if player = me then - 2 else 2, None) (n + 1))"
| "minimax_loop d board player me opp [] best n = (Inr best, n)"
| "minimax_loop d board player me opp (m # ms) best n =
     (case minimax d (board[m := player]) (if player = me then opp else me) me opp n of
        (Inl e, n') \<Rightarrow> (Inl e, n')
      | (Inr (val, _), n') \<Rightarrow>
          minimax_loop d board player me opp ms
            (if player = me \<and> val > fst best then (val, Some m)
             else if player = opp \<and> val < fst best then (val, Some m)
             else best) n')"
  by pat_completeness auto

termination
  by (relation "inv_image (less_than <*lex*> less_than)
        (\<lambda>x. case x of
           Inl (d, board, player, me, opp, n) \<Rightarrow> (d, 0)
         | Inr (d, board, player, me, opp, ms, best, n) \<Rightarrow> (d, Suc (length ms)))") auto

function (sequential)
  alphabeta :: "nat \<Rightarrow> board \<Rightarrow> cell \<Rightarrow> int \<Rightarrow> int \<Rightarrow> cell \<Rightarrow> cell \<Rightarrow> nat
                \<Rightarrow> (error + result) \<times> nat"
and
  alphabeta_max :: "nat \<Rightarrow> board \<Rightarrow> cell \<Rightarrow> cell \<Rightarrow> cell \<Rightarrow> nat list \<Rightarrow> result \<Rightarrow> int \<Rightarrow> int
                    \<Rightarrow> nat \<Rightarrow> (error + result) \<times> nat"
and
  alphabeta_min :: "nat \<Rightarrow> board \<Rightarrow> cell \<Rightarrow> cell \<Rightarrow> cell \<Rightarrow> nat list \<Rightarrow> result \<Rightarrow> int \<Rightarrow> int
                    \<Rightarrow> nat \<Rightarrow> (error + result) \<times> nat"
where
  "alphabeta 0 board player alpha beta me opp n = (Inl RecursionError, n)"
| "alphabeta (Suc d) board player alpha beta me opp n =
     (case terminal board of
        Inl e \<Rightarrow> (Inl e, n + 1)
      | Inr True \<Rightarrow>
          (case utility board me opp of
             Inl e \<Rightarrow> (Inl e, n + 1)
           | Inr u \<Rightarrow> (Inr (u, None), n + 1))
      | Inr False \<Rightarrow>
          if player = me
          then alphabeta_max d board player me opp (moves board) (- 2, None) alpha beta (n + 1)
          else alphabeta_min d board player me opp (moves board) (2, None) alpha beta (n + 1))"
| "alphabeta_max d board player me opp [] best alpha beta n = (Inr best, n)"
| "alphabeta_max d board player me opp (m # ms) best alpha beta n =
     (case alphabeta d (board[m := player]) opp alpha beta me opp n of
        (Inl e, n') \<Rightarrow> (Inl e, n')
      | (Inr (val, _), n') \<Rightarrow>
          (let best' = (if val > fst best then (val, Some m) else best);
               alpha' = max alpha val
           in if alpha' \<ge> beta then (Inr best', n')
              else alphabeta_max d board player me opp ms best' alpha' beta n'))"
| "alphabeta_min d board player me opp [] best alpha beta n = (Inr best, n)"
| "alphabeta_min d board player me opp (m # ms) best alpha beta n =
     (case alphabeta d (board[m := player]) me alpha beta me opp n of
        (Inl e, n') \<Rightarrow> (Inl e, n')
      | (Inr (val, _), n') \<Rightarrow>
          (let best' = (if val < fst best then (val, Some m) else best);
               beta' = min beta val
           in if alpha \<ge> beta' then (Inr best', n')
              else alphabeta_min d board player me opp ms best' alpha beta' n'))"
  by pat_completeness auto

termination
  by (relation "inv_image (less_than <*lex*> less_than)
        (\<lambda>x. case x of
           Inl (d, board, player, alpha, beta, me, opp, n) \<Rightarrow> (d, 0)
         | Inr (Inl (d, board, player, me, opp, ms, best, alpha, beta, n)) \<Rightarrow>
             (d, Suc (length ms))
         | Inr (Inr (d, board, player, me, opp, ms, best, alpha, beta, n)) \<Rightarrow>
             (d, Suc (length ms)))") auto

section \<open>The searches on a store of list objects\<close>

text \<open>
  In the program a board is a reference to a mutable list, and each explored move is
  written into a copy: \<open>b2 = board[:]\<close> followed by \<open>b2[m] = player\<close>. To say what a
  search does to the caller's list, the same two functions are given once more over an
  explicit store: a list of list objects, a reference being an index into it. The slice
  \<open>board[:]\<close> allocates a new object at the end of the store, and the item assignment
  changes the object its reference points to. Each search returns the store it leaves
  behind.
\<close>

type_synonym store = "board list"

function (sequential)
  minimax_st :: "nat \<Rightarrow> store \<Rightarrow> nat \<Rightarrow> cell \<Rightarrow> cell \<Rightarrow> cell \<Rightarrow> nat
                 \<Rightarrow> (error + result) \<times> nat \<times> store"
and
  minimax_loop_st :: "nat \<Rightarrow> store \<Rightarrow> nat \<Rightarrow> cell \<Rightarrow> cell \<Rightarrow> cell \<Rightarrow> nat list \<Rightarrow> result \<Rightarrow> nat
                      \<Rightarrow> (error + result) \<times> nat \<times> store"
where
  "minimax_st 0 s board player me opp n = (Inl RecursionError, n, s)"
| "minimax_st (Suc d) s board player me opp n =
     (case terminal (s ! board) of
        Inl e \<Rightarrow> (Inl e, n + 1, s)
      | Inr True \<Rightarrow>
          (case utility (s ! board) me opp of
             Inl e \<Rightarrow> (Inl e, n + 1, s)
           | Inr u \<Rightarrow> (Inr (u, None), n + 1, s))
      | Inr False \<Rightarrow>
          minimax_loop_st d s board player me opp (moves (s ! board))
            (if player = me then - 2 else 2, None) (n + 1))"
| "minimax_loop_st d s board player me opp [] best n = (Inr best, n, s)"
| "minimax_loop_st d s board player me opp (m # ms) best n =
     (let b2 = length s;
          s1 = s @ [s ! board];
          s2 = s1[b2 := (s1 ! b2)[m := player]]
      in case minimax_st d s2 b2 (if player = me then opp else me) me opp n of
           (Inl e, n', s') \<Rightarrow> (Inl e, n', s')
         | (Inr (val, _), n', s') \<Rightarrow>
             minimax_loop_st d s' board player me opp ms
               (if player = me \<and> val > fst best then (val, Some m)
                else if player = opp \<and> val < fst best then (val, Some m)
                else best) n')"
  by pat_completeness auto

termination
  by (relation "inv_image (less_than <*lex*> less_than)
        (\<lambda>x. case x of
           Inl (d, s, board, player, me, opp, n) \<Rightarrow> (d, 0)
         | Inr (d, s, board, player, me, opp, ms, best, n) \<Rightarrow> (d, Suc (length ms)))") auto

function (sequential)
  alphabeta_st :: "nat \<Rightarrow> store \<Rightarrow> nat \<Rightarrow> cell \<Rightarrow> int \<Rightarrow> int \<Rightarrow> cell \<Rightarrow> cell \<Rightarrow> nat
                   \<Rightarrow> (error + result) \<times> nat \<times> store"
and
  alphabeta_max_st :: "nat \<Rightarrow> store \<Rightarrow> nat \<Rightarrow> cell \<Rightarrow> cell \<Rightarrow> cell \<Rightarrow> nat list \<Rightarrow> result
                       \<Rightarrow> int \<Rightarrow> int \<Rightarrow> nat \<Rightarrow> (error + result) \<times> nat \<times> store"
and
  alphabeta_min_st :: "nat \<Rightarrow> store \<Rightarrow> nat \<Rightarrow> cell \<Rightarrow> cell \<Rightarrow> cell \<Rightarrow> nat list \<Rightarrow> result
                       \<Rightarrow> int \<Rightarrow> int \<Rightarrow> nat \<Rightarrow> (error + result) \<times> nat \<times> store"
where
  "alphabeta_st 0 s board player alpha beta me opp n = (Inl RecursionError, n, s)"
| "alphabeta_st (Suc d) s board player alpha beta me opp n =
     (case terminal (s ! board) of
        Inl e \<Rightarrow> (Inl e, n + 1, s)
      | Inr True \<Rightarrow>
          (case utility (s ! board) me opp of
             Inl e \<Rightarrow> (Inl e, n + 1, s)
           | Inr u \<Rightarrow> (Inr (u, None), n + 1, s))
      | Inr False \<Rightarrow>
          if player = me
          then alphabeta_max_st d s board player me opp (moves (s ! board)) (- 2, None)
                 alpha beta (n + 1)
          else alphabeta_min_st d s board player me opp (moves (s ! board)) (2, None)
                 alpha beta (n + 1))"
| "alphabeta_max_st d s board player me opp [] best alpha beta n = (Inr best, n, s)"
| "alphabeta_max_st d s board player me opp (m # ms) best alpha beta n =
     (let b2 = length s;
          s1 = s @ [s ! board];
          s2 = s1[b2 := (s1 ! b2)[m := player]]
      in case alphabeta_st d s2 b2 opp alpha beta me opp n of
           (Inl e, n', s') \<Rightarrow> (Inl e, n', s')
         | (Inr (val, _), n', s') \<Rightarrow>
             (let best' = (if val > fst best then (val, Some m) else best);
                  alpha' = max alpha val
              in if alpha' \<ge> beta then (Inr best', n', s')
                 else alphabeta_max_st d s' board player me opp ms best' alpha' beta n'))"
| "alphabeta_min_st d s board player me opp [] best alpha beta n = (Inr best, n, s)"
| "alphabeta_min_st d s board player me opp (m # ms) best alpha beta n =
     (let b2 = length s;
          s1 = s @ [s ! board];
          s2 = s1[b2 := (s1 ! b2)[m := player]]
      in case alphabeta_st d s2 b2 me alpha beta me opp n of
           (Inl e, n', s') \<Rightarrow> (Inl e, n', s')
         | (Inr (val, _), n', s') \<Rightarrow>
             (let best' = (if val < fst best then (val, Some m) else best);
                  beta' = min beta val
              in if alpha \<ge> beta' then (Inr best', n', s')
                 else alphabeta_min_st d s' board player me opp ms best' alpha beta' n'))"
  by pat_completeness auto

termination
  by (relation "inv_image (less_than <*lex*> less_than)
        (\<lambda>x. case x of
           Inl (d, s, board, player, alpha, beta, me, opp, n) \<Rightarrow> (d, 0)
         | Inr (Inl (d, s, board, player, me, opp, ms, best, alpha, beta, n)) \<Rightarrow>
             (d, Suc (length ms))
         | Inr (Inr (d, s, board, player, me, opp, ms, best, alpha, beta, n)) \<Rightarrow>
             (d, Suc (length ms)))") auto

section \<open>Notions used to state the properties\<close>

text \<open>A valid assignment of the two sides: two different marks, neither the empty cell.\<close>

definition valid_sides :: "cell \<Rightarrow> cell \<Rightarrow> bool" where
  "valid_sides me opp \<longleftrightarrow> me \<noteq> '' '' \<and> opp \<noteq> '' '' \<and> me \<noteq> opp"

definition empty_board :: board where
  "empty_board = replicate 9 '' ''"

text \<open>The value and the number of visited nodes of a search started with the counter at 0.\<close>

definition mm_val :: "nat \<Rightarrow> board \<Rightarrow> cell \<Rightarrow> cell \<Rightarrow> cell \<Rightarrow> int" where
  "mm_val d b p me opp = (case fst (minimax d b p me opp 0) of Inl e \<Rightarrow> 0 | Inr r \<Rightarrow> fst r)"

definition mm_cnt :: "nat \<Rightarrow> board \<Rightarrow> cell \<Rightarrow> cell \<Rightarrow> cell \<Rightarrow> nat" where
  "mm_cnt d b p me opp = snd (minimax d b p me opp 0)"

definition ab_val :: "nat \<Rightarrow> board \<Rightarrow> cell \<Rightarrow> int \<Rightarrow> int \<Rightarrow> cell \<Rightarrow> cell \<Rightarrow> int" where
  "ab_val d b p alpha beta me opp =
     (case fst (alphabeta d b p alpha beta me opp 0) of Inl e \<Rightarrow> 0 | Inr r \<Rightarrow> fst r)"

definition ab_cnt :: "nat \<Rightarrow> board \<Rightarrow> cell \<Rightarrow> int \<Rightarrow> int \<Rightarrow> cell \<Rightarrow> cell \<Rightarrow> nat" where
  "ab_cnt d b p alpha beta me opp = snd (alphabeta d b p alpha beta me opp 0)"

text \<open>One step of the running best of a maximising and of a minimising loop.\<close>

definition upd_max :: "(nat \<Rightarrow> int) \<Rightarrow> result \<Rightarrow> nat \<Rightarrow> result" where
  "upd_max cv best m = (if cv m > fst best then (cv m, Some m) else best)"

definition upd_min :: "(nat \<Rightarrow> int) \<Rightarrow> result \<Rightarrow> nat \<Rightarrow> result" where
  "upd_min cv best m = (if cv m < fst best then (cv m, Some m) else best)"

text \<open>
  The two loops of the pruned search over the values \<open>cv bound m\<close> and node counts
  \<open>ck bound m\<close> of the children, \<open>bound\<close> being the bound that moves (\<open>alpha\<close> in a
  maximising loop, \<open>beta\<close> in a minimising one). They return the final best and the
  number of nodes visited below.
\<close>

fun prune_max :: "(int \<Rightarrow> nat \<Rightarrow> int) \<Rightarrow> (int \<Rightarrow> nat \<Rightarrow> nat) \<Rightarrow> int \<Rightarrow> nat list \<Rightarrow> result \<Rightarrow> int
                  \<Rightarrow> result \<times> nat" where
  "prune_max cv ck beta [] best alpha = (best, 0)"
| "prune_max cv ck beta (m # ms) best alpha =
     (if max alpha (cv alpha m) \<ge> beta
      then (if cv alpha m > fst best then (cv alpha m, Some m) else best, ck alpha m)
      else (fst (prune_max cv ck beta ms
                   (if cv alpha m > fst best then (cv alpha m, Some m) else best)
                   (max alpha (cv alpha m))),
            ck alpha m +
            snd (prune_max cv ck beta ms
                   (if cv alpha m > fst best then (cv alpha m, Some m) else best)
                   (max alpha (cv alpha m)))))"

fun prune_min :: "(int \<Rightarrow> nat \<Rightarrow> int) \<Rightarrow> (int \<Rightarrow> nat \<Rightarrow> nat) \<Rightarrow> int \<Rightarrow> nat list \<Rightarrow> result \<Rightarrow> int
                  \<Rightarrow> result \<times> nat" where
  "prune_min cv ck alpha [] best beta = (best, 0)"
| "prune_min cv ck alpha (m # ms) best beta =
     (if alpha \<ge> min beta (cv beta m)
      then (if cv beta m < fst best then (cv beta m, Some m) else best, ck beta m)
      else (fst (prune_min cv ck alpha ms
                   (if cv beta m < fst best then (cv beta m, Some m) else best)
                   (min beta (cv beta m))),
            ck beta m +
            snd (prune_min cv ck alpha ms
                   (if cv beta m < fst best then (cv beta m, Some m) else best)
                   (min beta (cv beta m)))))"

text \<open>
  What a pruned search may return for a position of value \<open>v\<close> when it is called with
  the window \<open>(alpha, beta)\<close>: the value itself inside the window, an upper bound of it
  at or below \<open>alpha\<close>, a lower bound of it at or above \<open>beta\<close>.
\<close>

definition bounded_by :: "int \<Rightarrow> int \<Rightarrow> int \<Rightarrow> int \<Rightarrow> bool" where
  "bounded_by alpha beta v v' \<longleftrightarrow>
     (v' \<le> alpha \<longrightarrow> v \<le> v') \<and> (alpha < v' \<and> v' < beta \<longrightarrow> v' = v) \<and> (beta \<le> v' \<longrightarrow> v' \<le> v)"

text \<open>
  The game itself, without any search. \<open>can_force_ge me opp v b p\<close>: on board \<open>b\<close> with
  \<open>p\<close> to move, the side \<open>me\<close> has a way of playing that ends, whatever \<open>opp\<close> plays, on a
  finished board of utility at least \<open>v\<close>. \<open>can_force_le\<close> is the same for \<open>opp\<close> and
  utility at most \<open>v\<close>. The value of a position under best play of both sides is the
  \<open>v\<close> for which both hold.
\<close>

inductive can_force_ge :: "cell \<Rightarrow> cell \<Rightarrow> int \<Rightarrow> board \<Rightarrow> cell \<Rightarrow> bool"
  for me opp :: cell and v :: int
where
  ge_final: "terminal b = Inr True \<Longrightarrow> utility b me opp = Inr u \<Longrightarrow> v \<le> u
             \<Longrightarrow> can_force_ge me opp v b p"
| ge_mine: "terminal b = Inr False \<Longrightarrow> m \<in> set (moves b)
            \<Longrightarrow> can_force_ge me opp v (b[m := me]) opp
            \<Longrightarrow> can_force_ge me opp v b me"
| ge_theirs: "terminal b = Inr False
              \<Longrightarrow> (\<forall>m \<in> set (moves b). can_force_ge me opp v (b[m := opp]) me)
              \<Longrightarrow> can_force_ge me opp v b opp"

inductive can_force_le :: "cell \<Rightarrow> cell \<Rightarrow> int \<Rightarrow> board \<Rightarrow> cell \<Rightarrow> bool"
  for me opp :: cell and v :: int
where
  le_final: "terminal b = Inr True \<Longrightarrow> utility b me opp = Inr u \<Longrightarrow> u \<le> v
             \<Longrightarrow> can_force_le me opp v b p"
| le_theirs: "terminal b = Inr False \<Longrightarrow> m \<in> set (moves b)
              \<Longrightarrow> can_force_le me opp v (b[m := opp]) me
              \<Longrightarrow> can_force_le me opp v b opp"
| le_mine: "terminal b = Inr False
            \<Longrightarrow> (\<forall>m \<in> set (moves b). can_force_le me opp v (b[m := me]) opp)
            \<Longrightarrow> can_force_le me opp v b me"

definition game_value :: "cell \<Rightarrow> cell \<Rightarrow> board \<Rightarrow> cell \<Rightarrow> int \<Rightarrow> bool" where
  "game_value me opp b p v \<longleftrightarrow> can_force_ge me opp v b p \<and> can_force_le me opp v b p"

section \<open>Legal moves, winner, terminal boards\<close>

lemma enumerate_filter_fst:
  "map fst (filter (\<lambda>(i, v). P v) (enumerate k xs)) =
   filter (\<lambda>i. P (xs ! (i - k))) [k..<k + length xs]"
proof (induction xs arbitrary: k)
  case Nil
  then show ?case by simp
next
  case (Cons x xs)
  have "filter (\<lambda>i. P ((x # xs) ! (i - k))) [Suc k..<Suc k + length xs] =
        filter (\<lambda>i. P (xs ! (i - Suc k))) [Suc k..<Suc k + length xs]"
  proof (rule filter_cong [OF refl])
    fix i
    assume "i \<in> set [Suc k..<Suc k + length xs]"
    then have "Suc k \<le> i" by (simp only: set_upt atLeastLessThan_iff)
    then have "i - k = Suc (i - Suc k)" by arith
    then show "P ((x # xs) ! (i - k)) = P (xs ! (i - Suc k))" by simp
  qed
  with Cons.IH [of "Suc k"] show ?case
    by (simp add: upt_conv_Cons del: upt_Suc)
qed

lemma moves_filter: "moves b = filter (\<lambda>i. b ! i = '' '') [0..<length b]"
  using enumerate_filter_fst [of "\<lambda>v. v = '' ''" 0 b] by (simp add: moves_def)

lemma moves_iff: "m \<in> set (moves b) \<longleftrightarrow> m < length b \<and> b ! m = '' ''"
  by (auto simp: moves_filter)

lemma moves_sorted: "sorted (moves b)"
  by (simp add: moves_filter sorted_wrt_filter)

lemma moves_distinct: "distinct (moves b)"
  by (simp add: moves_filter)

lemma moves_update:
  assumes "p \<noteq> '' ''"
  shows "moves (b[m := p]) = filter (\<lambda>i. i \<noteq> m) (moves b)"
proof -
  have "(b[m := p] ! i = '' '') = (i \<noteq> m \<and> b ! i = '' '')" if "i < length b" for i
    using assms that by (cases "i = m") auto
  then have "filter (\<lambda>i. b[m := p] ! i = '' '') [0..<length b] =
        filter (\<lambda>i. i \<noteq> m \<and> b ! i = '' '') [0..<length b]"
    by (intro filter_cong) auto
  then show ?thesis
    by (simp add: moves_filter conj_commute)
qed

lemma moves_update_less:
  assumes "p \<noteq> '' ''" and "m \<in> set (moves b)"
  shows "length (moves (b[m := p])) < length (moves b)"
  unfolding moves_update [OF assms(1)]
  using assms(2) by (intro length_filter_less [of m]) auto

lemma winner_loop_step:
  "a < length board \<Longrightarrow> b < length board \<Longrightarrow> c < length board \<Longrightarrow>
   winner_loop board ((a, b, c) # ls) =
     (if board ! a \<noteq> '' '' \<and> board ! a = board ! b \<and> board ! b = board ! c
      then Inr (Some (board ! a)) else winner_loop board ls)"
  by (simp add: getitem_def)

lemma winner_loop_total:
  "\<forall>(a, b, c) \<in> set ls. a < length board \<and> b < length board \<and> c < length board
   \<Longrightarrow> \<exists>w. winner_loop board ls = Inr w"
proof (induction ls)
  case Nil
  then show ?case by simp
next
  case (Cons l ls)
  obtain a b c where l: "l = (a, b, c)" by (cases l)
  from Cons.prems have "a < length board" "b < length board" "c < length board"
    by (auto simp: l)
  moreover from Cons have "\<exists>w. winner_loop board ls = Inr w" by simp
  ultimately show ?case
    unfolding l by (simp only: winner_loop_step) auto
qed

lemma winner_total: "length b = 9 \<Longrightarrow> \<exists>w. winner b = Inr w"
  unfolding winner_def by (rule winner_loop_total) (simp add: LINES_def)

lemma terminal_total: "length b = 9 \<Longrightarrow> \<exists>t. terminal b = Inr t"
  using winner_total [of b] by (auto simp: terminal_def)

lemma utility_range: "utility b me opp = Inr u \<Longrightarrow> - 1 \<le> u \<and> u \<le> 1"
  by (auto simp: utility_def split: sum.splits if_splits)

lemma terminal_utility: "terminal b = Inr t \<Longrightarrow> \<exists>u. utility b me opp = Inr u"
  by (auto simp: terminal_def utility_def split: sum.splits)

lemma not_terminal_moves: "terminal b = Inr False \<Longrightarrow> moves b \<noteq> []"
  by (auto simp: terminal_def split: sum.splits)

section \<open>The running best of a loop\<close>

lemma fold_max_char:
  "(foldl (upd_max cv) best ms = best \<and> (\<forall>m \<in> set ms. cv m \<le> fst best)) \<or>
   (\<exists>pre m post. ms = pre @ m # post \<and> foldl (upd_max cv) best ms = (cv m, Some m) \<and>
      fst best < cv m \<and> (\<forall>x \<in> set pre. cv x < cv m) \<and> (\<forall>x \<in> set post. cv x \<le> cv m))"
proof (induction ms rule: rev_induct)
  case Nil
  then show ?case by simp
next
  case (snoc x ms)
  let ?r = "foldl (upd_max cv) best ms"
  show ?case
  proof (cases "cv x > fst ?r")
    case True
    then have r: "foldl (upd_max cv) best (ms @ [x]) = (cv x, Some x)"
      by (simp add: upd_max_def [of cv ?r x])
    have "fst best < cv x \<and> (\<forall>y \<in> set ms. cv y < cv x)"
      using snoc.IH
    proof (elim disjE exE conjE)
      assume "?r = best" "\<forall>m \<in> set ms. cv m \<le> fst best"
      with True show ?thesis by force
    next
      fix pre m post
      assume *: "ms = pre @ m # post" "?r = (cv m, Some m)" "fst best < cv m"
        "\<forall>x \<in> set pre. cv x < cv m" "\<forall>x \<in> set post. cv x \<le> cv m"
      then have "\<forall>y \<in> set ms. cv y \<le> cv m" by (auto simp: less_imp_le)
      with True * show ?thesis by force
    qed
    with r have "ms @ [x] = ms @ x # [] \<and> foldl (upd_max cv) best (ms @ [x]) = (cv x, Some x) \<and>
        fst best < cv x \<and> (\<forall>y \<in> set ms. cv y < cv x) \<and> (\<forall>y \<in> set []. cv y \<le> cv x)"
      by simp
    then show ?thesis by blast
  next
    case False
    then have r: "foldl (upd_max cv) best (ms @ [x]) = ?r"
      by (simp add: upd_max_def [of cv ?r x])
    from snoc.IH show ?thesis
    proof (elim disjE exE conjE)
      assume "?r = best" "\<forall>m \<in> set ms. cv m \<le> fst best"
      with False r show ?thesis by auto
    next
      fix pre m post
      assume *: "ms = pre @ m # post" "?r = (cv m, Some m)" "fst best < cv m"
        "\<forall>x \<in> set pre. cv x < cv m" "\<forall>x \<in> set post. cv x \<le> cv m"
      with False have "cv x \<le> cv m" by simp
      with * r have "ms @ [x] = pre @ m # (post @ [x]) \<and>
          foldl (upd_max cv) best (ms @ [x]) = (cv m, Some m) \<and> fst best < cv m \<and>
          (\<forall>y \<in> set pre. cv y < cv m) \<and> (\<forall>y \<in> set (post @ [x]). cv y \<le> cv m)"
        by simp
      then show ?thesis by blast
    qed
  qed
qed

lemma fold_min_char:
  "(foldl (upd_min cv) best ms = best \<and> (\<forall>m \<in> set ms. fst best \<le> cv m)) \<or>
   (\<exists>pre m post. ms = pre @ m # post \<and> foldl (upd_min cv) best ms = (cv m, Some m) \<and>
      cv m < fst best \<and> (\<forall>x \<in> set pre. cv m < cv x) \<and> (\<forall>x \<in> set post. cv m \<le> cv x))"
proof (induction ms rule: rev_induct)
  case Nil
  then show ?case by simp
next
  case (snoc x ms)
  let ?r = "foldl (upd_min cv) best ms"
  show ?case
  proof (cases "cv x < fst ?r")
    case True
    then have r: "foldl (upd_min cv) best (ms @ [x]) = (cv x, Some x)"
      by (simp add: upd_min_def [of cv ?r x])
    have "cv x < fst best \<and> (\<forall>y \<in> set ms. cv x < cv y)"
      using snoc.IH
    proof (elim disjE exE conjE)
      assume "?r = best" "\<forall>m \<in> set ms. fst best \<le> cv m"
      with True show ?thesis by force
    next
      fix pre m post
      assume *: "ms = pre @ m # post" "?r = (cv m, Some m)" "cv m < fst best"
        "\<forall>x \<in> set pre. cv m < cv x" "\<forall>x \<in> set post. cv m \<le> cv x"
      then have "\<forall>y \<in> set ms. cv m \<le> cv y" by (auto simp: less_imp_le)
      with True * show ?thesis by force
    qed
    with r have "ms @ [x] = ms @ x # [] \<and> foldl (upd_min cv) best (ms @ [x]) = (cv x, Some x) \<and>
        cv x < fst best \<and> (\<forall>y \<in> set ms. cv x < cv y) \<and> (\<forall>y \<in> set []. cv x \<le> cv y)"
      by simp
    then show ?thesis by blast
  next
    case False
    then have r: "foldl (upd_min cv) best (ms @ [x]) = ?r"
      by (simp add: upd_min_def [of cv ?r x])
    from snoc.IH show ?thesis
    proof (elim disjE exE conjE)
      assume "?r = best" "\<forall>m \<in> set ms. fst best \<le> cv m"
      with False r show ?thesis by auto
    next
      fix pre m post
      assume *: "ms = pre @ m # post" "?r = (cv m, Some m)" "cv m < fst best"
        "\<forall>x \<in> set pre. cv m < cv x" "\<forall>x \<in> set post. cv m \<le> cv x"
      with False have "cv m \<le> cv x" by simp
      with * r have "ms @ [x] = pre @ m # (post @ [x]) \<and>
          foldl (upd_min cv) best (ms @ [x]) = (cv m, Some m) \<and> cv m < fst best \<and>
          (\<forall>y \<in> set pre. cv m < cv y) \<and> (\<forall>y \<in> set (post @ [x]). cv m \<le> cv y)"
        by simp
      then show ?thesis by blast
    qed
  qed
qed

text \<open>With a first candidate below every value, a non-empty loop returns one of its moves.\<close>

lemma fold_max_picks:
  assumes "ms \<noteq> []" and "\<forall>m \<in> set ms. fst best < cv m"
  shows "\<exists>m \<in> set ms. foldl (upd_max cv) best ms = (cv m, Some m) \<and> (\<forall>x \<in> set ms. cv x \<le> cv m)"
proof -
  from assms obtain x where "x \<in> set ms" "fst best < cv x"
    by (cases ms) auto
  then have "\<not> (\<forall>m \<in> set ms. cv m \<le> fst best)" by force
  with fold_max_char [of cv best ms] show ?thesis by fastforce
qed

lemma fold_min_picks:
  assumes "ms \<noteq> []" and "\<forall>m \<in> set ms. cv m < fst best"
  shows "\<exists>m \<in> set ms. foldl (upd_min cv) best ms = (cv m, Some m) \<and> (\<forall>x \<in> set ms. cv m \<le> cv x)"
proof -
  from assms obtain x where "x \<in> set ms" "cv x < fst best"
    by (cases ms) auto
  then have "\<not> (\<forall>m \<in> set ms. fst best \<le> cv m)" by force
  with fold_min_char [of cv best ms] show ?thesis by fastforce
qed

section \<open>The exhaustive search returns\<close>

lemma minimax_loop_max:
  assumes "me \<noteq> opp"
    and "\<And>m n. m \<in> set ms \<Longrightarrow>
           \<exists>mv. minimax d (b[m := me]) opp me opp n = (Inr (cv m, mv), n + ck m)"
  shows "minimax_loop d b me me opp ms best n =
           (Inr (foldl (upd_max cv) best ms), n + sum_list (map ck ms))"
  using assms(2)
proof (induction ms arbitrary: best n)
  case Nil
  then show ?case by simp
next
  case (Cons m ms)
  from Cons.prems [of m n] obtain mv where
    c: "minimax d (b[m := me]) opp me opp n = (Inr (cv m, mv), n + ck m)" by auto
  have "minimax_loop d b me me opp ms (upd_max cv best m) (n + ck m) =
          (Inr (foldl (upd_max cv) (upd_max cv best m) ms), n + ck m + sum_list (map ck ms))"
    by (rule Cons.IH) (simp add: Cons.prems)
  with c assms(1) show ?case
    by (cases "fst best < cv m") (simp_all add: upd_max_def [of cv best m] add.assoc)
qed

lemma minimax_loop_min:
  assumes "me \<noteq> opp"
    and "\<And>m n. m \<in> set ms \<Longrightarrow>
           \<exists>mv. minimax d (b[m := opp]) me me opp n = (Inr (cv m, mv), n + ck m)"
  shows "minimax_loop d b opp me opp ms best n =
           (Inr (foldl (upd_min cv) best ms), n + sum_list (map ck ms))"
  using assms(2)
proof (induction ms arbitrary: best n)
  case Nil
  then show ?case by simp
next
  case (Cons m ms)
  from Cons.prems [of m n] obtain mv where
    c: "minimax d (b[m := opp]) me me opp n = (Inr (cv m, mv), n + ck m)" by auto
  have "minimax_loop d b opp me opp ms (upd_min cv best m) (n + ck m) =
          (Inr (foldl (upd_min cv) (upd_min cv best m) ms), n + ck m + sum_list (map ck ms))"
    by (rule Cons.IH) (simp add: Cons.prems)
  with c assms(1) show ?case
    by (cases "cv m < fst best") (simp_all add: upd_min_def [of cv best m] add.assoc)
qed

lemma mm_proj:
  assumes "\<And>n. minimax d b p me opp n = (Inr (v, mv), n + k)"
  shows "mm_val d b p me opp = v" and "mm_cnt d b p me opp = k"
  using assms [of 0] by (simp_all add: mm_val_def mm_cnt_def)

text \<open>
  On a nine-cell board, with two valid sides and one of them to move, the search returns
  whenever more calls may be nested than cells are empty.
\<close>

lemma minimax_total:
  assumes "valid_sides me opp"
  shows "length b = 9 \<Longrightarrow> p = me \<or> p = opp \<Longrightarrow> length (moves b) < d \<Longrightarrow>
         \<exists>mv. (\<forall>n. minimax d b p me opp n =
                   (Inr (mm_val d b p me opp, mv), n + mm_cnt d b p me opp)) \<and>
              - 1 \<le> mm_val d b p me opp \<and> mm_val d b p me opp \<le> 1 \<and>
              0 < mm_cnt d b p me opp \<and>
              (terminal b = Inr True \<longrightarrow> mv = None) \<and>
              (terminal b = Inr False \<longrightarrow> (\<exists>m \<in> set (moves b). mv = Some m))"
proof (induction d arbitrary: b p)
  case 0
  then show ?case by simp
next
  case (Suc d)
  from assms have sides: "me \<noteq> '' ''" "opp \<noteq> '' ''" "me \<noteq> opp"
    by (simp_all add: valid_sides_def)
  from terminal_total [OF Suc.prems(1)] obtain t where t: "terminal b = Inr t" ..
  have goal: "\<exists>mv. (\<forall>n. minimax (Suc d) b p me opp n = (Inr (v, mv), n + k)) \<and>
                - 1 \<le> v \<and> v \<le> 1 \<and> 0 < k \<and>
                (terminal b = Inr True \<longrightarrow> mv = None) \<and>
                (terminal b = Inr False \<longrightarrow> (\<exists>m \<in> set (moves b). mv = Some m))
              \<Longrightarrow> ?case" for v k
  proof -
    assume "\<exists>mv. (\<forall>n. minimax (Suc d) b p me opp n = (Inr (v, mv), n + k)) \<and>
                - 1 \<le> v \<and> v \<le> 1 \<and> 0 < k \<and>
                (terminal b = Inr True \<longrightarrow> mv = None) \<and>
                (terminal b = Inr False \<longrightarrow> (\<exists>m \<in> set (moves b). mv = Some m))"
    then obtain mv where mv: "\<And>n. minimax (Suc d) b p me opp n = (Inr (v, mv), n + k)"
      and rest: "- 1 \<le> v" "v \<le> 1" "0 < k" "terminal b = Inr True \<longrightarrow> mv = None"
        "terminal b = Inr False \<longrightarrow> (\<exists>m \<in> set (moves b). mv = Some m)"
      by blast
    from mm_proj [of "Suc d" b p me opp v mv k, OF mv]
    have "mm_val (Suc d) b p me opp = v" "mm_cnt (Suc d) b p me opp = k" .
    with mv rest show ?case by auto
  qed
  show ?case
  proof (cases t)
    case True
    from terminal_utility [OF t] obtain u where u: "utility b me opp = Inr u" ..
    with utility_range [OF u] t True show ?thesis
      by (intro goal [of u 1]) simp
  next
    case False
    with t have nt: "terminal b = Inr False" by simp
    then have ne: "moves b \<noteq> []" by (rule not_terminal_moves)
    have child: "\<exists>mv. (\<forall>n. minimax d (b[m := q]) q' me opp n =
                     (Inr (mm_val d (b[m := q]) q' me opp, mv),
                      n + mm_cnt d (b[m := q]) q' me opp)) \<and>
                   - 1 \<le> mm_val d (b[m := q]) q' me opp \<and> mm_val d (b[m := q]) q' me opp \<le> 1"
      if "m \<in> set (moves b)" "q \<noteq> '' ''" "q' = me \<or> q' = opp" for m q q'
    proof -
      from moves_update_less [OF that(2) that(1)] Suc.prems(3)
      have "length (moves (b[m := q])) < d" by simp
      with Suc.IH [of "b[m := q]" q'] Suc.prems(1) that(3) show ?thesis by auto
    qed
    from Suc.prems(2) show ?thesis
    proof
      assume p: "p = me"
      let ?cv = "\<lambda>m. mm_val d (b[m := me]) opp me opp"
      let ?ck = "\<lambda>m. mm_cnt d (b[m := me]) opp me opp"
      have loop: "minimax_loop d b me me opp (moves b) best n =
              (Inr (foldl (upd_max ?cv) best (moves b)), n + sum_list (map ?ck (moves b)))"
        for best n
        using child [OF _ sides(1), of _ opp]
        by (intro minimax_loop_max [OF sides(3)]) blast
      have "\<forall>m \<in> set (moves b). fst (- 2 :: int, None :: nat option) < ?cv m"
        using child [OF _ sides(1), of _ opp] by fastforce
      from fold_max_picks [OF ne this] obtain m where
        m: "m \<in> set (moves b)"
           "foldl (upd_max ?cv) (- 2, None) (moves b) = (?cv m, Some m)" by blast
      from child [OF m(1) sides(1), of opp] have "- 1 \<le> ?cv m \<and> ?cv m \<le> 1" by blast
      with nt p loop m show ?thesis
        by (intro goal [of "?cv m" "1 + sum_list (map ?ck (moves b))"]) simp
    next
      assume p: "p = opp"
      let ?cv = "\<lambda>m. mm_val d (b[m := opp]) me me opp"
      let ?ck = "\<lambda>m. mm_cnt d (b[m := opp]) me me opp"
      have loop: "minimax_loop d b opp me opp (moves b) best n =
              (Inr (foldl (upd_min ?cv) best (moves b)), n + sum_list (map ?ck (moves b)))"
        for best n
        using child [OF _ sides(2), of _ me]
        by (intro minimax_loop_min [OF sides(3)]) blast
      have "\<forall>m \<in> set (moves b). ?cv m < fst (2 :: int, None :: nat option)"
        using child [OF _ sides(2), of _ me] by fastforce
      from fold_min_picks [OF ne this] obtain m where
        m: "m \<in> set (moves b)"
           "foldl (upd_min ?cv) (2, None) (moves b) = (?cv m, Some m)" by blast
      from child [OF m(1) sides(2), of me] have "- 1 \<le> ?cv m \<and> ?cv m \<le> 1" by blast
      with nt p loop m sides(3) show ?thesis
        by (intro goal [of "?cv m" "1 + sum_list (map ?ck (moves b))"]) simp
    qed
  qed
qed

text \<open>The search at a finished board, and at an unfinished one in terms of its children.\<close>

lemma minimax_terminal:
  assumes "terminal b = Inr True"
  shows "\<exists>u. utility b me opp = Inr u \<and> minimax (Suc d) b p me opp n = (Inr (u, None), n + 1)"
  using terminal_utility [OF assms, of me opp] assms by auto

lemma minimax_node_max:
  assumes "valid_sides me opp" "length b = 9" "length (moves b) \<le> d" "terminal b = Inr False"
  shows "minimax (Suc d) b me me opp n =
           (Inr (foldl (upd_max (\<lambda>m. mm_val d (b[m := me]) opp me opp)) (- 2, None) (moves b)),
            n + 1 + sum_list (map (\<lambda>m. mm_cnt d (b[m := me]) opp me opp) (moves b)))"
proof -
  from assms(1) have sides: "me \<noteq> '' ''" "me \<noteq> opp" by (simp_all add: valid_sides_def)
  have "\<exists>mv. minimax d (b[m := me]) opp me opp k =
          (Inr (mm_val d (b[m := me]) opp me opp, mv), k + mm_cnt d (b[m := me]) opp me opp)"
    if "m \<in> set (moves b)" for m k
  proof -
    from moves_update_less [OF sides(1) that] assms(3)
    have "length (moves (b[m := me])) < d" by simp
    with minimax_total [OF assms(1), of "b[m := me]" opp d] assms(2) show ?thesis by auto
  qed
  from minimax_loop_max [of me opp "moves b" d b _ _ _ "n + 1", OF sides(2) this]
  show ?thesis using assms(4) by simp
qed

lemma minimax_node_min:
  assumes "valid_sides me opp" "length b = 9" "length (moves b) \<le> d" "terminal b = Inr False"
  shows "minimax (Suc d) b opp me opp n =
           (Inr (foldl (upd_min (\<lambda>m. mm_val d (b[m := opp]) me me opp)) (2, None) (moves b)),
            n + 1 + sum_list (map (\<lambda>m. mm_cnt d (b[m := opp]) me me opp) (moves b)))"
proof -
  from assms(1) have sides: "opp \<noteq> '' ''" "me \<noteq> opp" by (simp_all add: valid_sides_def)
  have "\<exists>mv. minimax d (b[m := opp]) me me opp k =
          (Inr (mm_val d (b[m := opp]) me me opp, mv), k + mm_cnt d (b[m := opp]) me me opp)"
    if "m \<in> set (moves b)" for m k
  proof -
    from moves_update_less [OF sides(1) that] assms(3)
    have "length (moves (b[m := opp])) < d" by simp
    with minimax_total [OF assms(1), of "b[m := opp]" me d] assms(2) show ?thesis by auto
  qed
  from minimax_loop_min [of me opp "moves b" d b _ _ _ "n + 1", OF sides(2) this]
  show ?thesis using assms(4) sides(2) by simp
qed

lemma mm_val_range:
  assumes "valid_sides me opp" "length b = 9" "p = me \<or> p = opp" "length (moves b) < d"
  shows "- 1 \<le> mm_val d b p me opp" and "mm_val d b p me opp \<le> 1"
  using minimax_total [OF assms] by auto

section \<open>The pruned search returns\<close>

lemma alphabeta_max_prune:
  assumes "\<And>m a n. m \<in> set ms \<Longrightarrow>
             \<exists>mv. alphabeta d (b[m := p]) opp a beta me opp n = (Inr (cv a m, mv), n + ck a m)"
  shows "alphabeta_max d b p me opp ms best alpha beta n =
           (Inr (fst (prune_max cv ck beta ms best alpha)),
            n + snd (prune_max cv ck beta ms best alpha))"
  using assms
proof (induction ms arbitrary: best alpha n)
  case Nil
  then show ?case by simp
next
  case (Cons m ms)
  from Cons.prems [of m alpha n] obtain mv where
    c: "alphabeta d (b[m := p]) opp alpha beta me opp n = (Inr (cv alpha m, mv), n + ck alpha m)"
    by auto
  let ?best = "if cv alpha m > fst best then (cv alpha m, Some m) else best"
  have "alphabeta_max d b p me opp ms ?best (max alpha (cv alpha m)) beta (n + ck alpha m) =
          (Inr (fst (prune_max cv ck beta ms ?best (max alpha (cv alpha m)))),
           n + ck alpha m + snd (prune_max cv ck beta ms ?best (max alpha (cv alpha m))))"
    by (rule Cons.IH) (simp add: Cons.prems)
  with c show ?case
    by (simp add: Let_def add.assoc)
qed

lemma alphabeta_min_prune:
  assumes "\<And>m bt n. m \<in> set ms \<Longrightarrow>
             \<exists>mv. alphabeta d (b[m := p]) me alpha bt me opp n = (Inr (cv bt m, mv), n + ck bt m)"
  shows "alphabeta_min d b p me opp ms best alpha beta n =
           (Inr (fst (prune_min cv ck alpha ms best beta)),
            n + snd (prune_min cv ck alpha ms best beta))"
  using assms
proof (induction ms arbitrary: best beta n)
  case Nil
  then show ?case by simp
next
  case (Cons m ms)
  from Cons.prems [of m beta n] obtain mv where
    c: "alphabeta d (b[m := p]) me alpha beta me opp n = (Inr (cv beta m, mv), n + ck beta m)"
    by auto
  let ?best = "if cv beta m < fst best then (cv beta m, Some m) else best"
  have "alphabeta_min d b p me opp ms ?best alpha (min beta (cv beta m)) (n + ck beta m) =
          (Inr (fst (prune_min cv ck alpha ms ?best (min beta (cv beta m)))),
           n + ck beta m + snd (prune_min cv ck alpha ms ?best (min beta (cv beta m))))"
    by (rule Cons.IH) (simp add: Cons.prems)
  with c show ?case
    by (simp add: Let_def add.assoc)
qed

text \<open>A loop returns its first candidate or the value and index of one of its moves.\<close>

lemma prune_max_cases:
  "fst (prune_max cv ck beta ms best alpha) = best \<or>
   (\<exists>m \<in> set ms. \<exists>a. fst (prune_max cv ck beta ms best alpha) = (cv a m, Some m))"
proof (induction ms arbitrary: best alpha)
  case Nil
  then show ?case by simp
next
  case (Cons m ms)
  let ?best = "if cv alpha m > fst best then (cv alpha m, Some m) else best"
  from Cons.IH [of ?best "max alpha (cv alpha m)"] show ?case
    by (cases "cv alpha m > fst best"; cases "max alpha (cv alpha m) \<ge> beta") auto
qed

lemma prune_min_cases:
  "fst (prune_min cv ck alpha ms best beta) = best \<or>
   (\<exists>m \<in> set ms. \<exists>a. fst (prune_min cv ck alpha ms best beta) = (cv a m, Some m))"
proof (induction ms arbitrary: best beta)
  case Nil
  then show ?case by simp
next
  case (Cons m ms)
  let ?best = "if cv beta m < fst best then (cv beta m, Some m) else best"
  from Cons.IH [of ?best "min beta (cv beta m)"] show ?case
    by (cases "cv beta m < fst best"; cases "alpha \<ge> min beta (cv beta m)") auto
qed

lemma prune_max_picks:
  assumes "ms \<noteq> []" and "\<forall>m \<in> set ms. \<forall>a. fst best < cv a m"
  shows "\<exists>m \<in> set ms. \<exists>a. fst (prune_max cv ck beta ms best alpha) = (cv a m, Some m)"
proof -
  from assms(1) obtain m ms' where ms: "ms = m # ms'" by (cases ms) auto
  with assms(2) have gt: "cv alpha m > fst best" by simp
  from prune_max_cases [of cv ck beta ms' "(cv alpha m, Some m)" "max alpha (cv alpha m)"]
  show ?thesis
    unfolding ms using gt by (cases "max alpha (cv alpha m) \<ge> beta") auto
qed

lemma prune_min_picks:
  assumes "ms \<noteq> []" and "\<forall>m \<in> set ms. \<forall>a. cv a m < fst best"
  shows "\<exists>m \<in> set ms. \<exists>a. fst (prune_min cv ck alpha ms best beta) = (cv a m, Some m)"
proof -
  from assms(1) obtain m ms' where ms: "ms = m # ms'" by (cases ms) auto
  with assms(2) have lt: "cv beta m < fst best" by simp
  from prune_min_cases [of cv ck alpha ms' "(cv beta m, Some m)" "min beta (cv beta m)"]
  show ?thesis
    unfolding ms using lt by (cases "alpha \<ge> min beta (cv beta m)") auto
qed

lemma ab_proj:
  assumes "\<And>n. alphabeta d b p alpha beta me opp n = (Inr (v, mv), n + k)"
  shows "ab_val d b p alpha beta me opp = v" and "ab_cnt d b p alpha beta me opp = k"
  using assms [of 0] by (simp_all add: ab_val_def ab_cnt_def)

lemma alphabeta_total:
  assumes "valid_sides me opp"
  shows "length b = 9 \<Longrightarrow> p = me \<or> p = opp \<Longrightarrow> length (moves b) < d \<Longrightarrow>
         \<exists>mv. (\<forall>n. alphabeta d b p alpha beta me opp n =
                   (Inr (ab_val d b p alpha beta me opp, mv),
                    n + ab_cnt d b p alpha beta me opp)) \<and>
              - 1 \<le> ab_val d b p alpha beta me opp \<and> ab_val d b p alpha beta me opp \<le> 1 \<and>
              0 < ab_cnt d b p alpha beta me opp \<and>
              (terminal b = Inr True \<longrightarrow> mv = None) \<and>
              (terminal b = Inr False \<longrightarrow> (\<exists>m \<in> set (moves b). mv = Some m))"
proof (induction d arbitrary: b p alpha beta)
  case 0
  then show ?case by simp
next
  case (Suc d)
  from assms have sides: "me \<noteq> '' ''" "opp \<noteq> '' ''" "me \<noteq> opp"
    by (simp_all add: valid_sides_def)
  from terminal_total [OF Suc.prems(1)] obtain t where t: "terminal b = Inr t" ..
  have goal: "\<exists>mv. (\<forall>n. alphabeta (Suc d) b p alpha beta me opp n = (Inr (v, mv), n + k)) \<and>
                - 1 \<le> v \<and> v \<le> 1 \<and> 0 < k \<and>
                (terminal b = Inr True \<longrightarrow> mv = None) \<and>
                (terminal b = Inr False \<longrightarrow> (\<exists>m \<in> set (moves b). mv = Some m))
              \<Longrightarrow> ?case" for v k
  proof -
    assume "\<exists>mv. (\<forall>n. alphabeta (Suc d) b p alpha beta me opp n = (Inr (v, mv), n + k)) \<and>
                - 1 \<le> v \<and> v \<le> 1 \<and> 0 < k \<and>
                (terminal b = Inr True \<longrightarrow> mv = None) \<and>
                (terminal b = Inr False \<longrightarrow> (\<exists>m \<in> set (moves b). mv = Some m))"
    then obtain mv where
      mv: "\<And>n. alphabeta (Suc d) b p alpha beta me opp n = (Inr (v, mv), n + k)"
      and rest: "- 1 \<le> v" "v \<le> 1" "0 < k" "terminal b = Inr True \<longrightarrow> mv = None"
        "terminal b = Inr False \<longrightarrow> (\<exists>m \<in> set (moves b). mv = Some m)"
      by blast
    from ab_proj [of "Suc d" b p alpha beta me opp v mv k, OF mv]
    have "ab_val (Suc d) b p alpha beta me opp = v" "ab_cnt (Suc d) b p alpha beta me opp = k" .
    with mv rest show ?case by auto
  qed
  show ?case
  proof (cases t)
    case True
    from terminal_utility [OF t] obtain u where u: "utility b me opp = Inr u" ..
    with utility_range [OF u] t True show ?thesis
      by (intro goal [of u 1]) simp
  next
    case False
    with t have nt: "terminal b = Inr False" by simp
    then have ne: "moves b \<noteq> []" by (rule not_terminal_moves)
    have child: "\<exists>mv. (\<forall>n. alphabeta d (b[m := q]) q' a bt me opp n =
                     (Inr (ab_val d (b[m := q]) q' a bt me opp, mv),
                      n + ab_cnt d (b[m := q]) q' a bt me opp)) \<and>
                   - 1 \<le> ab_val d (b[m := q]) q' a bt me opp \<and>
                   ab_val d (b[m := q]) q' a bt me opp \<le> 1"
      if "m \<in> set (moves b)" "q \<noteq> '' ''" "q' = me \<or> q' = opp" for m q q' a bt
    proof -
      from moves_update_less [OF that(2) that(1)] Suc.prems(3)
      have "length (moves (b[m := q])) < d" by simp
      with Suc.IH [of "b[m := q]" q' a bt] Suc.prems(1) that(3) show ?thesis by auto
    qed
    from Suc.prems(2) show ?thesis
    proof
      assume p: "p = me"
      let ?cv = "\<lambda>a m. ab_val d (b[m := me]) opp a beta me opp"
      let ?ck = "\<lambda>a m. ab_cnt d (b[m := me]) opp a beta me opp"
      let ?r = "prune_max ?cv ?ck beta (moves b) (- 2, None) alpha"
      have loop: "alphabeta_max d b me me opp (moves b) best a beta n =
              (Inr (fst (prune_max ?cv ?ck beta (moves b) best a)),
               n + snd (prune_max ?cv ?ck beta (moves b) best a))" for best a n
        using child [OF _ sides(1), of _ opp]
        by (intro alphabeta_max_prune) blast
      have "\<forall>m \<in> set (moves b). \<forall>a. fst (- 2 :: int, None :: nat option) < ?cv a m"
      proof (intro ballI allI)
        fix m a
        assume "m \<in> set (moves b)"
        from child [OF this sides(1), of opp a beta] show "fst (- 2 :: int, None :: nat option) < ?cv a m"
          by auto
      qed
      from prune_max_picks [OF ne this, of ?ck beta alpha] obtain m a where
        m: "m \<in> set (moves b)" "fst ?r = (?cv a m, Some m)" by blast
      from child [OF m(1) sides(1), of opp a beta]
      have "- 1 \<le> ?cv a m \<and> ?cv a m \<le> 1" by blast
      with nt p loop [of "(- 2, None)" alpha] m show ?thesis
        by (intro goal [of "?cv a m" "1 + snd ?r"]) simp
    next
      assume p: "p = opp"
      let ?cv = "\<lambda>bt m. ab_val d (b[m := opp]) me alpha bt me opp"
      let ?ck = "\<lambda>bt m. ab_cnt d (b[m := opp]) me alpha bt me opp"
      let ?r = "prune_min ?cv ?ck alpha (moves b) (2, None) beta"
      have loop: "alphabeta_min d b opp me opp (moves b) best alpha bt n =
              (Inr (fst (prune_min ?cv ?ck alpha (moves b) best bt)),
               n + snd (prune_min ?cv ?ck alpha (moves b) best bt))" for best bt n
        using child [OF _ sides(2), of _ me]
        by (intro alphabeta_min_prune) blast
      have "\<forall>m \<in> set (moves b). \<forall>a. ?cv a m < fst (2 :: int, None :: nat option)"
      proof (intro ballI allI)
        fix m a
        assume "m \<in> set (moves b)"
        from child [OF this sides(2), of me alpha a] show "?cv a m < fst (2 :: int, None :: nat option)"
          by auto
      qed
      from prune_min_picks [OF ne this, of ?ck alpha beta] obtain m a where
        m: "m \<in> set (moves b)" "fst ?r = (?cv a m, Some m)" by blast
      from child [OF m(1) sides(2), of me alpha a]
      have "- 1 \<le> ?cv a m \<and> ?cv a m \<le> 1" by blast
      with nt p loop [of "(2, None)" beta] m sides(3) show ?thesis
        by (intro goal [of "?cv a m" "1 + snd ?r"]) simp
    qed
  qed
qed

lemma alphabeta_terminal:
  assumes "terminal b = Inr True"
  shows "\<exists>u. utility b me opp = Inr u \<and>
             alphabeta (Suc d) b p alpha beta me opp n = (Inr (u, None), n + 1)"
  using terminal_utility [OF assms, of me opp] assms by auto

lemma alphabeta_node_max:
  assumes "valid_sides me opp" "length b = 9" "length (moves b) \<le> d" "terminal b = Inr False"
  shows "alphabeta (Suc d) b me alpha beta me opp n =
           (Inr (fst (prune_max (\<lambda>a m. ab_val d (b[m := me]) opp a beta me opp)
                        (\<lambda>a m. ab_cnt d (b[m := me]) opp a beta me opp)
                        beta (moves b) (- 2, None) alpha)),
            n + 1 + snd (prune_max (\<lambda>a m. ab_val d (b[m := me]) opp a beta me opp)
                        (\<lambda>a m. ab_cnt d (b[m := me]) opp a beta me opp)
                        beta (moves b) (- 2, None) alpha))"
proof -
  from assms(1) have sides: "me \<noteq> '' ''" "me \<noteq> opp" by (simp_all add: valid_sides_def)
  have "\<exists>mv. alphabeta d (b[m := me]) opp a beta me opp k =
          (Inr (ab_val d (b[m := me]) opp a beta me opp, mv),
           k + ab_cnt d (b[m := me]) opp a beta me opp)"
    if "m \<in> set (moves b)" for m a k
  proof -
    from moves_update_less [OF sides(1) that] assms(3)
    have "length (moves (b[m := me])) < d" by simp
    with alphabeta_total [OF assms(1), of "b[m := me]" opp d a beta] assms(2)
    show ?thesis by auto
  qed
  from alphabeta_max_prune [where ms = "moves b" and n = "n + 1", OF this]
  show ?thesis using assms(4) by simp
qed

lemma alphabeta_node_min:
  assumes "valid_sides me opp" "length b = 9" "length (moves b) \<le> d" "terminal b = Inr False"
  shows "alphabeta (Suc d) b opp alpha beta me opp n =
           (Inr (fst (prune_min (\<lambda>bt m. ab_val d (b[m := opp]) me alpha bt me opp)
                        (\<lambda>bt m. ab_cnt d (b[m := opp]) me alpha bt me opp)
                        alpha (moves b) (2, None) beta)),
            n + 1 + snd (prune_min (\<lambda>bt m. ab_val d (b[m := opp]) me alpha bt me opp)
                        (\<lambda>bt m. ab_cnt d (b[m := opp]) me alpha bt me opp)
                        alpha (moves b) (2, None) beta))"
proof -
  from assms(1) have sides: "opp \<noteq> '' ''" "me \<noteq> opp" by (simp_all add: valid_sides_def)
  have "\<exists>mv. alphabeta d (b[m := opp]) me alpha bt me opp k =
          (Inr (ab_val d (b[m := opp]) me alpha bt me opp, mv),
           k + ab_cnt d (b[m := opp]) me alpha bt me opp)"
    if "m \<in> set (moves b)" for m bt k
  proof -
    from moves_update_less [OF sides(1) that] assms(3)
    have "length (moves (b[m := opp])) < d" by simp
    with alphabeta_total [OF assms(1), of "b[m := opp]" me d alpha bt] assms(2)
    show ?thesis by auto
  qed
  from alphabeta_min_prune [where ms = "moves b" and n = "n + 1", OF this]
  show ?thesis using assms(4) sides(2) by simp
qed

lemma ab_val_range:
  assumes "valid_sides me opp" "length b = 9" "p = me \<or> p = opp" "length (moves b) < d"
  shows "- 1 \<le> ab_val d b p alpha beta me opp" and "ab_val d b p alpha beta me opp \<le> 1"
  using alphabeta_total [OF assms, of alpha beta] by auto

section \<open>Pruning against the exhaustive loop\<close>

text \<open>From here on the searches are unfolded by the lemmas above only.\<close>

declare minimax.simps [simp del] minimax_loop.simps [simp del]
declare alphabeta.simps [simp del] alphabeta_max.simps [simp del] alphabeta_min.simps [simp del]

lemma upd_max_fst: "fst (upd_max cv best m) = max (fst best) (cv m)"
  by (simp add: upd_max_def)

lemma upd_min_fst: "fst (upd_min cv best m) = min (fst best) (cv m)"
  by (simp add: upd_min_def)

lemma fold_max_ge: "fst best \<le> fst (foldl (upd_max cv) best ms)"
  using fold_max_char [of cv best ms] by auto

lemma fold_min_le: "fst (foldl (upd_min cv) best ms) \<le> fst best"
  using fold_min_char [of cv best ms] by auto

lemma fold_max_mono:
  "fst b1 \<le> fst b2 \<Longrightarrow>
   fst (foldl (upd_max cv) b2 ms) = max (fst b2) (fst (foldl (upd_max cv) b1 ms))"
proof (induction ms arbitrary: b1 b2)
  case Nil
  then show ?case by simp
next
  case (Cons m ms)
  let ?F = "fst (foldl (upd_max cv) (upd_max cv b1 m) ms)"
  from Cons.prems have "fst (upd_max cv b1 m) \<le> fst (upd_max cv b2 m)"
    by (simp add: upd_max_fst)
  from Cons.IH [OF this]
  have "fst (foldl (upd_max cv) (upd_max cv b2 m) ms) = max (max (fst b2) (cv m)) ?F"
    by (simp add: upd_max_fst)
  moreover have "cv m \<le> ?F"
    using fold_max_ge [of "upd_max cv b1 m" cv ms] by (simp add: upd_max_fst)
  ultimately show ?case by simp
qed

lemma fold_min_mono:
  "fst b2 \<le> fst b1 \<Longrightarrow>
   fst (foldl (upd_min cv) b2 ms) = min (fst b2) (fst (foldl (upd_min cv) b1 ms))"
proof (induction ms arbitrary: b1 b2)
  case Nil
  then show ?case by simp
next
  case (Cons m ms)
  let ?F = "fst (foldl (upd_min cv) (upd_min cv b1 m) ms)"
  from Cons.prems have "fst (upd_min cv b2 m) \<le> fst (upd_min cv b1 m)"
    by (simp add: upd_min_fst)
  from Cons.IH [OF this]
  have "fst (foldl (upd_min cv) (upd_min cv b2 m) ms) = min (min (fst b2) (cv m)) ?F"
    by (simp add: upd_min_fst)
  moreover have "?F \<le> cv m"
    using fold_min_le [of cv "upd_min cv b1 m" ms] by (simp add: upd_min_fst)
  ultimately show ?case by simp
qed

lemma prune_max_ge: "fst best \<le> fst (fst (prune_max cv ck beta ms best alpha))"
proof (induction ms arbitrary: best alpha)
  case Nil
  then show ?case by simp
next
  case (Cons m ms)
  let ?best = "if cv alpha m > fst best then (cv alpha m, Some m) else best"
  have "fst best \<le> fst ?best" by simp
  with Cons.IH [of ?best "max alpha (cv alpha m)"] show ?case
    by (cases "max alpha (cv alpha m) \<ge> beta") (simp_all del: max.bounded_iff)
qed

lemma prune_min_le: "fst (fst (prune_min cv ck alpha ms best beta)) \<le> fst best"
proof (induction ms arbitrary: best beta)
  case Nil
  then show ?case by simp
next
  case (Cons m ms)
  let ?best = "if cv beta m < fst best then (cv beta m, Some m) else best"
  have "fst ?best \<le> fst best" by simp
  with Cons.IH [of ?best "min beta (cv beta m)"] show ?case
    by (cases "alpha \<ge> min beta (cv beta m)") (simp_all del: min.bounded_iff)
qed

lemma bounded_max_break:
  assumes "bounded_by a bt V v" "a < bt" "bt \<le> v" "x \<le> a \<or> x \<le> - 2" "- 1 \<le> v"
    "max x V \<le> R"
  shows "bounded_by a bt R (max x v)"
  using assms unfolding bounded_by_def by (auto simp: max_def split: if_splits)

lemma bounded_max_raise:
  assumes "bounded_by (max a v) bt R' r" "R' = max (max x v) R" "max x V \<le> R"
    "max x v \<le> r" "v = V" "a < v"
  shows "bounded_by a bt R r"
  using assms unfolding bounded_by_def by (auto simp: max_def split: if_splits)

lemma bounded_max_keep:
  assumes "bounded_by a bt R' r" "R' = max (max x v) R" "max x V \<le> R"
    "max x v \<le> r" "V \<le> v" "max x v \<le> a" "a < bt"
  shows "bounded_by a bt R r"
  using assms unfolding bounded_by_def by (auto simp: max_def split: if_splits)

lemma bounded_min_break:
  assumes "bounded_by a bt V v" "a < bt" "v \<le> a" "bt \<le> x \<or> 2 \<le> x" "v \<le> 1"
    "R \<le> min x V"
  shows "bounded_by a bt R (min x v)"
  using assms unfolding bounded_by_def by (auto simp: min_def split: if_splits)

lemma bounded_min_lower:
  assumes "bounded_by a (min bt v) R' r" "R' = min (min x v) R" "R \<le> min x V"
    "r \<le> min x v" "v = V" "v < bt"
  shows "bounded_by a bt R r"
  using assms unfolding bounded_by_def by (auto simp: min_def split: if_splits)

lemma bounded_min_keep:
  assumes "bounded_by a bt R' r" "R' = min (min x v) R" "R \<le> min x V"
    "r \<le> min x v" "v \<le> V" "bt \<le> min x v" "a < bt"
  shows "bounded_by a bt R r"
  using assms unfolding bounded_by_def by (auto simp: min_def split: if_splits)

text \<open>
  The maximising loop: started from the same best as the exhaustive loop, with
  \<open>alpha\<close> below \<open>beta\<close> and the best not above \<open>alpha\<close> (or still at its first value
  \<open>-2\<close>), the pruned loop returns a value related to the exhaustive one as its children's
  values are.
\<close>

lemma prune_max_bounded:
  assumes kids: "\<forall>m \<in> set ms. \<forall>a. a < beta \<longrightarrow> bounded_by a beta (cvm m) (cva a m)"
    and rng: "\<forall>m \<in> set ms. \<forall>a. - 1 \<le> cva a m"
  shows "alpha < beta \<Longrightarrow> fst best \<le> alpha \<or> fst best \<le> - 2 \<Longrightarrow>
         bounded_by alpha beta (fst (foldl (upd_max cvm) best ms))
           (fst (fst (prune_max cva cka beta ms best alpha)))"
  using kids rng
proof (induction ms arbitrary: best alpha)
  case Nil
  then show ?case by (simp add: bounded_by_def)
next
  case (Cons m ms)
  let ?x = "fst best" and ?V = "cvm m" and ?v = "cva alpha m"
  let ?best = "if ?v > ?x then (?v, Some m) else best"
  let ?R = "fst (foldl (upd_max cvm) (upd_max cvm best m) ms)"
  from Cons.prems have B: "bounded_by alpha beta ?V ?v" and low: "- 1 \<le> ?v" by simp_all
  have R_ge: "max ?x ?V \<le> ?R"
    using fold_max_ge [of "upd_max cvm best m" cvm ms] by (simp add: upd_max_fst)
  have fb: "fst ?best = max ?x ?v" by simp
  show ?case
  proof (cases "max alpha ?v \<ge> beta")
    case True
    with Cons.prems(1) have "beta \<le> ?v" by simp
    from bounded_max_break [OF B Cons.prems(1) this Cons.prems(2) low R_ge]
    have "bounded_by alpha beta ?R (max ?x ?v)" .
    with True fb show ?thesis by (simp del: max.bounded_iff)
  next
    case False
    then have lt: "max alpha ?v < beta" by (simp only: not_le)
    let ?r = "fst (fst (prune_max cva cka beta ms ?best (max alpha ?v)))"
    let ?R' = "fst (foldl (upd_max cvm) ?best ms)"
    have pre: "fst ?best \<le> max alpha ?v \<or> fst ?best \<le> - 2"
      using Cons.prems(2) low by auto
    have IH: "bounded_by (max alpha ?v) beta ?R' ?r"
      using Cons.prems(3,4) by (intro Cons.IH [OF lt pre]) simp_all
    from B lt have Vv: "?V \<le> ?v" unfolding bounded_by_def by auto
    then have "fst (upd_max cvm best m) \<le> fst ?best"
      by (simp add: upd_max_fst del: max.bounded_iff) linarith
    from fold_max_mono [OF this, of cvm ms] fb
    have R': "?R' = max (max ?x ?v) ?R" by (simp del: max.bounded_iff)
    have r_ge: "max ?x ?v \<le> ?r"
      using prune_max_ge [of ?best cva cka beta ms "max alpha ?v"] fb
      by (simp del: max.bounded_iff)
    have "bounded_by alpha beta ?R ?r"
    proof (cases "?v > alpha")
      case True
      with B lt have "?v = ?V" unfolding bounded_by_def by auto
      from bounded_max_raise [OF IH R' R_ge r_ge this True] show ?thesis .
    next
      case False
      with Cons.prems(2) low have xa: "max ?x ?v \<le> alpha" by auto
      from False have "max alpha ?v = alpha" by simp
      with IH have "bounded_by alpha beta ?R' ?r" by simp
      from bounded_max_keep [OF this R' R_ge r_ge Vv xa Cons.prems(1)] show ?thesis .
    qed
    with False show ?thesis by (simp add: upd_max_def [of cvm best m] del: max.bounded_iff)
  qed
qed

lemma prune_min_bounded:
  assumes kids: "\<forall>m \<in> set ms. \<forall>bt. alpha < bt \<longrightarrow> bounded_by alpha bt (cvm m) (cva bt m)"
    and rng: "\<forall>m \<in> set ms. \<forall>bt. cva bt m \<le> 1"
  shows "alpha < beta \<Longrightarrow> beta \<le> fst best \<or> 2 \<le> fst best \<Longrightarrow>
         bounded_by alpha beta (fst (foldl (upd_min cvm) best ms))
           (fst (fst (prune_min cva cka alpha ms best beta)))"
  using kids rng
proof (induction ms arbitrary: best beta)
  case Nil
  then show ?case by (simp add: bounded_by_def)
next
  case (Cons m ms)
  let ?x = "fst best" and ?V = "cvm m" and ?v = "cva beta m"
  let ?best = "if ?v < ?x then (?v, Some m) else best"
  let ?R = "fst (foldl (upd_min cvm) (upd_min cvm best m) ms)"
  from Cons.prems have B: "bounded_by alpha beta ?V ?v" and high: "?v \<le> 1" by simp_all
  have R_le: "?R \<le> min ?x ?V"
    using fold_min_le [of cvm "upd_min cvm best m" ms] by (simp add: upd_min_fst)
  have fb: "fst ?best = min ?x ?v" by simp
  show ?case
  proof (cases "alpha \<ge> min beta ?v")
    case True
    with Cons.prems(1) have "?v \<le> alpha" by simp
    from bounded_min_break [OF B Cons.prems(1) this Cons.prems(2) high R_le]
    have "bounded_by alpha beta ?R (min ?x ?v)" .
    with True fb show ?thesis by (simp del: min.bounded_iff)
  next
    case False
    then have lt: "alpha < min beta ?v" by (simp only: not_le)
    let ?r = "fst (fst (prune_min cva cka alpha ms ?best (min beta ?v)))"
    let ?R' = "fst (foldl (upd_min cvm) ?best ms)"
    have pre: "min beta ?v \<le> fst ?best \<or> 2 \<le> fst ?best"
      using Cons.prems(2) high by auto
    have IH: "bounded_by alpha (min beta ?v) ?R' ?r"
      using Cons.prems(3,4) by (intro Cons.IH [OF lt pre]) simp_all
    from B lt have Vv: "?v \<le> ?V" unfolding bounded_by_def by auto
    then have "fst ?best \<le> fst (upd_min cvm best m)"
      by (simp add: upd_min_fst del: min.bounded_iff) linarith
    from fold_min_mono [OF this, of cvm ms] fb
    have R': "?R' = min (min ?x ?v) ?R" by (simp del: min.bounded_iff)
    have r_le: "?r \<le> min ?x ?v"
      using prune_min_le [of cva cka alpha ms ?best "min beta ?v"] fb
      by (simp del: min.bounded_iff)
    have "bounded_by alpha beta ?R ?r"
    proof (cases "?v < beta")
      case True
      with B lt have "?v = ?V" unfolding bounded_by_def by auto
      from bounded_min_lower [OF IH R' R_le r_le this True] show ?thesis .
    next
      case False
      with Cons.prems(2) high have xa: "beta \<le> min ?x ?v" by auto
      from False have "min beta ?v = beta" by simp
      with IH have "bounded_by alpha beta ?R' ?r" by simp
      from bounded_min_keep [OF this R' R_le r_le Vv xa Cons.prems(1)] show ?thesis .
    qed
    with False show ?thesis by (simp add: upd_min_def [of cvm best m] del: min.bounded_iff)
  qed
qed

text \<open>A pruned loop visits no more nodes than the exhaustive loop.\<close>

lemma prune_max_count:
  assumes "\<forall>m \<in> set ms. \<forall>a. a < beta \<longrightarrow> cka a m \<le> ckm m"
  shows "alpha < beta \<Longrightarrow> snd (prune_max cva cka beta ms best alpha) \<le> sum_list (map ckm ms)"
  using assms
proof (induction ms arbitrary: best alpha)
  case Nil
  then show ?case by simp
next
  case (Cons m ms)
  from Cons.prems have c: "cka alpha m \<le> ckm m" by simp
  show ?case
  proof (cases "max alpha (cva alpha m) \<ge> beta")
    case True
    with c show ?thesis by (simp del: max.bounded_iff)
  next
    case False
    then have "max alpha (cva alpha m) < beta" by (simp only: not_le)
    from Cons.IH [OF this] Cons.prems(2) c False show ?thesis
      by (simp add: add_mono del: max.bounded_iff)
  qed
qed

lemma prune_min_count:
  assumes "\<forall>m \<in> set ms. \<forall>bt. alpha < bt \<longrightarrow> cka bt m \<le> ckm m"
  shows "alpha < beta \<Longrightarrow> snd (prune_min cva cka alpha ms best beta) \<le> sum_list (map ckm ms)"
  using assms
proof (induction ms arbitrary: best beta)
  case Nil
  then show ?case by simp
next
  case (Cons m ms)
  from Cons.prems have c: "cka beta m \<le> ckm m" by simp
  show ?case
  proof (cases "alpha \<ge> min beta (cva beta m)")
    case True
    with c show ?thesis by (simp del: min.bounded_iff)
  next
    case False
    then have "alpha < min beta (cva beta m)" by (simp only: not_le)
    from Cons.IH [OF this] Cons.prems(2) c False show ?thesis
      by (simp add: add_mono del: min.bounded_iff)
  qed
qed

text \<open>If the first child is searched with fewer nodes, so is the whole loop.\<close>

lemma prune_max_count_less:
  assumes "\<forall>x \<in> set (m # ms). \<forall>a. a < beta \<longrightarrow> cka a x \<le> ckm x"
    and "alpha < beta" and "cka alpha m < ckm m"
  shows "snd (prune_max cva cka beta (m # ms) best alpha) < sum_list (map ckm (m # ms))"
proof (cases "max alpha (cva alpha m) \<ge> beta")
  case True
  with assms(3) show ?thesis by (simp del: max.bounded_iff)
next
  case False
  then have "max alpha (cva alpha m) < beta" by (simp only: not_le)
  from prune_max_count [of ms beta cka ckm, OF _ this] assms(1)
  have "snd (prune_max cva cka beta ms
               (if cva alpha m > fst best then (cva alpha m, Some m) else best)
               (max alpha (cva alpha m))) \<le> sum_list (map ckm ms)"
    by simp
  with assms(3) False show ?thesis by (simp del: max.bounded_iff)
qed

lemma prune_min_count_less:
  assumes "\<forall>x \<in> set (m # ms). \<forall>bt. alpha < bt \<longrightarrow> cka bt x \<le> ckm x"
    and "alpha < beta" and "cka beta m < ckm m"
  shows "snd (prune_min cva cka alpha (m # ms) best beta) < sum_list (map ckm (m # ms))"
proof (cases "alpha \<ge> min beta (cva beta m)")
  case True
  with assms(3) show ?thesis by (simp del: min.bounded_iff)
next
  case False
  then have "alpha < min beta (cva beta m)" by (simp only: not_le)
  from prune_min_count [of ms alpha cka ckm, OF _ this] assms(1)
  have "snd (prune_min cva cka alpha ms
               (if cva beta m < fst best then (cva beta m, Some m) else best)
               (min beta (cva beta m))) \<le> sum_list (map ckm ms)"
    by simp
  with assms(3) False show ?thesis by (simp del: min.bounded_iff)
qed

text \<open>
  With \<open>beta\<close> above every value of a child and \<open>alpha\<close> not above the running best, the
  maximising loop never breaks and keeps the same best, move included, as the exhaustive
  loop; symmetrically for the minimising loop.
\<close>

lemma prune_max_exact:
  assumes kids: "\<forall>m \<in> set ms. \<forall>a. a < beta \<longrightarrow> bounded_by a beta (cvm m) (cva a m)"
    and top: "\<forall>m \<in> set ms. cvm m < beta"
  shows "alpha \<le> fst best \<Longrightarrow> fst best < beta \<Longrightarrow>
         fst (prune_max cva cka beta ms best alpha) = foldl (upd_max cvm) best ms"
  using kids top
proof (induction ms arbitrary: best alpha)
  case Nil
  then show ?case by simp
next
  case (Cons m ms)
  let ?x = "fst best" and ?V = "cvm m" and ?v = "cva alpha m"
  from Cons.prems have ab: "alpha < beta" by simp
  with Cons.prems have B: "bounded_by alpha beta ?V ?v" and V: "?V < beta" by simp_all
  from B V have v: "?v < beta" unfolding bounded_by_def by auto
  with ab have nb: "\<not> max alpha ?v \<ge> beta" by simp
  have same: "(if ?v > ?x then (?v, Some m) else best) = upd_max cvm best m"
    using B v Cons.prems(1) unfolding bounded_by_def upd_max_def by auto
  have "max alpha ?v \<le> fst (upd_max cvm best m)"
    using B v Cons.prems(1) unfolding bounded_by_def by (auto simp: upd_max_fst)
  moreover have "fst (upd_max cvm best m) < beta"
    using V Cons.prems(2) by (simp add: upd_max_fst)
  ultimately have "fst (prune_max cva cka beta ms (upd_max cvm best m) (max alpha ?v)) =
      foldl (upd_max cvm) (upd_max cvm best m) ms"
    using Cons.prems(3,4) by (intro Cons.IH) simp_all
  with nb same show ?case by (simp del: max.bounded_iff)
qed

lemma prune_min_exact:
  assumes kids: "\<forall>m \<in> set ms. \<forall>bt. alpha < bt \<longrightarrow> bounded_by alpha bt (cvm m) (cva bt m)"
    and bot: "\<forall>m \<in> set ms. alpha < cvm m"
  shows "fst best \<le> beta \<Longrightarrow> alpha < fst best \<Longrightarrow>
         fst (prune_min cva cka alpha ms best beta) = foldl (upd_min cvm) best ms"
  using kids bot
proof (induction ms arbitrary: best beta)
  case Nil
  then show ?case by simp
next
  case (Cons m ms)
  let ?x = "fst best" and ?V = "cvm m" and ?v = "cva beta m"
  from Cons.prems have ab: "alpha < beta" by simp
  with Cons.prems have B: "bounded_by alpha beta ?V ?v" and V: "alpha < ?V" by simp_all
  from B V have v: "alpha < ?v" unfolding bounded_by_def by auto
  with ab have nb: "\<not> alpha \<ge> min beta ?v" by simp
  have same: "(if ?v < ?x then (?v, Some m) else best) = upd_min cvm best m"
    using B v Cons.prems(1) unfolding bounded_by_def upd_min_def by auto
  have "fst (upd_min cvm best m) \<le> min beta ?v"
    using B v Cons.prems(1) unfolding bounded_by_def by (auto simp: upd_min_fst)
  moreover have "alpha < fst (upd_min cvm best m)"
    using V Cons.prems(2) by (simp add: upd_min_fst)
  ultimately have "fst (prune_min cva cka alpha ms (upd_min cvm best m) (min beta ?v)) =
      foldl (upd_min cvm) (upd_min cvm best m) ms"
    using Cons.prems(3,4) by (intro Cons.IH) simp_all
  with nb same show ?case by (simp del: min.bounded_iff)
qed

section \<open>The two searches on the same position\<close>

lemma child_ok:
  assumes "length b = 9" "length (moves b) \<le> d" "m \<in> set (moves b)" "q \<noteq> '' ''"
  shows "length (b[m := q]) = 9" and "length (moves (b[m := q])) < d"
  using assms moves_update_less [OF assms(4,3)] by simp_all

lemma mm_terminal:
  assumes "terminal b = Inr True"
  shows "utility b me opp = Inr (mm_val (Suc d) b p me opp)" and "mm_cnt (Suc d) b p me opp = 1"
proof -
  from minimax_terminal [OF assms, of me opp d p 0] obtain u where
    u: "utility b me opp = Inr u" "minimax (Suc d) b p me opp 0 = (Inr (u, None), 0 + 1)"
    by blast
  show "utility b me opp = Inr (mm_val (Suc d) b p me opp)" and "mm_cnt (Suc d) b p me opp = 1"
    unfolding mm_val_def mm_cnt_def u by simp_all
qed

lemma ab_terminal:
  assumes "terminal b = Inr True"
  shows "utility b me opp = Inr (ab_val (Suc d) b p alpha beta me opp)"
    and "ab_cnt (Suc d) b p alpha beta me opp = 1"
proof -
  from alphabeta_terminal [OF assms, of me opp d p alpha beta 0] obtain u where
    u: "utility b me opp = Inr u"
       "alphabeta (Suc d) b p alpha beta me opp 0 = (Inr (u, None), 0 + 1)"
    by blast
  show "utility b me opp = Inr (ab_val (Suc d) b p alpha beta me opp)"
    and "ab_cnt (Suc d) b p alpha beta me opp = 1"
    unfolding ab_val_def ab_cnt_def u by simp_all
qed

lemma mm_node_max:
  assumes "valid_sides me opp" "length b = 9" "length (moves b) \<le> d" "terminal b = Inr False"
  shows "mm_val (Suc d) b me me opp =
           fst (foldl (upd_max (\<lambda>m. mm_val d (b[m := me]) opp me opp)) (- 2, None) (moves b))"
    and "mm_cnt (Suc d) b me me opp =
           1 + sum_list (map (\<lambda>m. mm_cnt d (b[m := me]) opp me opp) (moves b))"
  unfolding mm_val_def mm_cnt_def minimax_node_max [OF assms, of 0] by simp_all

lemma mm_node_min:
  assumes "valid_sides me opp" "length b = 9" "length (moves b) \<le> d" "terminal b = Inr False"
  shows "mm_val (Suc d) b opp me opp =
           fst (foldl (upd_min (\<lambda>m. mm_val d (b[m := opp]) me me opp)) (2, None) (moves b))"
    and "mm_cnt (Suc d) b opp me opp =
           1 + sum_list (map (\<lambda>m. mm_cnt d (b[m := opp]) me me opp) (moves b))"
  unfolding mm_val_def mm_cnt_def minimax_node_min [OF assms, of 0] by simp_all

lemma ab_node_max:
  assumes "valid_sides me opp" "length b = 9" "length (moves b) \<le> d" "terminal b = Inr False"
  shows "ab_val (Suc d) b me alpha beta me opp =
           fst (fst (prune_max (\<lambda>a m. ab_val d (b[m := me]) opp a beta me opp)
                       (\<lambda>a m. ab_cnt d (b[m := me]) opp a beta me opp)
                       beta (moves b) (- 2, None) alpha))"
    and "ab_cnt (Suc d) b me alpha beta me opp =
           1 + snd (prune_max (\<lambda>a m. ab_val d (b[m := me]) opp a beta me opp)
                       (\<lambda>a m. ab_cnt d (b[m := me]) opp a beta me opp)
                       beta (moves b) (- 2, None) alpha)"
  unfolding ab_val_def ab_cnt_def alphabeta_node_max [OF assms, of alpha beta 0] by simp_all

lemma ab_node_min:
  assumes "valid_sides me opp" "length b = 9" "length (moves b) \<le> d" "terminal b = Inr False"
  shows "ab_val (Suc d) b opp alpha beta me opp =
           fst (fst (prune_min (\<lambda>bt m. ab_val d (b[m := opp]) me alpha bt me opp)
                       (\<lambda>bt m. ab_cnt d (b[m := opp]) me alpha bt me opp)
                       alpha (moves b) (2, None) beta))"
    and "ab_cnt (Suc d) b opp alpha beta me opp =
           1 + snd (prune_min (\<lambda>bt m. ab_val d (b[m := opp]) me alpha bt me opp)
                       (\<lambda>bt m. ab_cnt d (b[m := opp]) me alpha bt me opp)
                       alpha (moves b) (2, None) beta)"
  unfolding ab_val_def ab_cnt_def alphabeta_node_min [OF assms, of alpha beta 0] by simp_all

text \<open>
  For every window with \<open>alpha < beta\<close>: the pruned value is the exhaustive value inside
  the window and a bound of it outside, and the pruned search visits no more nodes.
\<close>

lemma search_agree:
  assumes "valid_sides me opp"
  shows "length b = 9 \<Longrightarrow> p = me \<or> p = opp \<Longrightarrow> length (moves b) < d \<Longrightarrow> alpha < beta \<Longrightarrow>
         bounded_by alpha beta (mm_val d b p me opp) (ab_val d b p alpha beta me opp) \<and>
         ab_cnt d b p alpha beta me opp \<le> mm_cnt d b p me opp"
proof (induction d arbitrary: b p alpha beta)
  case 0
  then show ?case by simp
next
  case (Suc d)
  from assms have sides: "me \<noteq> '' ''" "opp \<noteq> '' ''" "me \<noteq> opp"
    by (simp_all add: valid_sides_def)
  from Suc.prems(3) have le: "length (moves b) \<le> d" by simp
  from terminal_total [OF Suc.prems(1)] obtain t where t: "terminal b = Inr t" ..
  show ?case
  proof (cases t)
    case True
    with t have tt: "terminal b = Inr True" by simp
    from mm_terminal [OF tt, where me = me and opp = opp and d = d and p = p]
      ab_terminal [OF tt, where me = me and opp = opp and d = d and p = p
        and alpha = alpha and beta = beta]
    show ?thesis by (simp add: bounded_by_def)
  next
    case False
    with t have nt: "terminal b = Inr False" by simp
    from Suc.prems(2) show ?thesis
    proof
      assume p: "p = me"
      let ?cvm = "\<lambda>m. mm_val d (b[m := me]) opp me opp"
      let ?ckm = "\<lambda>m. mm_cnt d (b[m := me]) opp me opp"
      let ?cva = "\<lambda>a m. ab_val d (b[m := me]) opp a beta me opp"
      let ?cka = "\<lambda>a m. ab_cnt d (b[m := me]) opp a beta me opp"
      have kid: "bounded_by a beta (?cvm m) (?cva a m) \<and> ?cka a m \<le> ?ckm m"
        if "m \<in> set (moves b)" "a < beta" for m a
        using child_ok [OF Suc.prems(1) le that(1) sides(1)] that(2)
        by (intro Suc.IH) simp_all
      have rng: "- 1 \<le> ?cva a m" if "m \<in> set (moves b)" for m a
        using child_ok [OF Suc.prems(1) le that sides(1)]
        by (intro ab_val_range [OF assms]) simp_all
      have "bounded_by alpha beta (fst (foldl (upd_max ?cvm) (- 2, None) (moves b)))
              (fst (fst (prune_max ?cva ?cka beta (moves b) (- 2, None) alpha)))"
        using kid rng Suc.prems(4) by (intro prune_max_bounded) simp_all
      moreover have "snd (prune_max ?cva ?cka beta (moves b) (- 2, None) alpha)
                       \<le> sum_list (map ?ckm (moves b))"
        using kid Suc.prems(4) by (intro prune_max_count) simp_all
      ultimately show ?thesis
        unfolding p mm_node_max [OF assms Suc.prems(1) le nt]
          ab_node_max [OF assms Suc.prems(1) le nt]
        by simp
    next
      assume p: "p = opp"
      let ?cvm = "\<lambda>m. mm_val d (b[m := opp]) me me opp"
      let ?ckm = "\<lambda>m. mm_cnt d (b[m := opp]) me me opp"
      let ?cva = "\<lambda>bt m. ab_val d (b[m := opp]) me alpha bt me opp"
      let ?cka = "\<lambda>bt m. ab_cnt d (b[m := opp]) me alpha bt me opp"
      have kid: "bounded_by alpha bt (?cvm m) (?cva bt m) \<and> ?cka bt m \<le> ?ckm m"
        if "m \<in> set (moves b)" "alpha < bt" for m bt
        using child_ok [OF Suc.prems(1) le that(1) sides(2)] that(2)
        by (intro Suc.IH) simp_all
      have rng: "?cva bt m \<le> 1" if "m \<in> set (moves b)" for m bt
        using child_ok [OF Suc.prems(1) le that sides(2)]
        by (intro ab_val_range [OF assms]) simp_all
      have "bounded_by alpha beta (fst (foldl (upd_min ?cvm) (2, None) (moves b)))
              (fst (fst (prune_min ?cva ?cka alpha (moves b) (2, None) beta)))"
        using kid rng Suc.prems(4) by (intro prune_min_bounded) simp_all
      moreover have "snd (prune_min ?cva ?cka alpha (moves b) (2, None) beta)
                       \<le> sum_list (map ?ckm (moves b))"
        using kid Suc.prems(4) by (intro prune_min_count) simp_all
      ultimately show ?thesis
        unfolding p mm_node_min [OF assms Suc.prems(1) le nt]
          ab_node_min [OF assms Suc.prems(1) le nt]
        by simp
    qed
  qed
qed

text \<open>
  Called with \<open>alpha\<close> below \<open>-1\<close> and \<open>beta\<close> above \<open>1\<close>, the pruned search returns the pair
  of the exhaustive search.
\<close>

lemma search_equal:
  assumes "valid_sides me opp" "length b = 9" "p = me \<or> p = opp" "length (moves b) < d"
    and "alpha < - 1" "1 < beta"
  shows "fst (alphabeta d b p alpha beta me opp n) = fst (minimax d b p me opp n')"
proof -
  from assms(4) obtain d' where d: "d = Suc d'" by (cases d) auto
  with assms(4) have le: "length (moves b) \<le> d'" by simp
  from assms(1) have sides: "me \<noteq> '' ''" "opp \<noteq> '' ''" "me \<noteq> opp"
    by (simp_all add: valid_sides_def)
  from terminal_total [OF assms(2)] obtain t where t: "terminal b = Inr t" ..
  show ?thesis
  proof (cases t)
    case True
    with t have tt: "terminal b = Inr True" by simp
    from minimax_terminal [OF tt, of me opp d' p n'] obtain u where
      u: "utility b me opp = Inr u" "minimax (Suc d') b p me opp n' = (Inr (u, None), n' + 1)"
      by blast
    from alphabeta_terminal [OF tt, of me opp d' p alpha beta n] u(1)
    have "alphabeta (Suc d') b p alpha beta me opp n = (Inr (u, None), n + 1)"
      by auto
    with u(2) show ?thesis unfolding d by (simp only: fst_conv)
  next
    case False
    with t have nt: "terminal b = Inr False" by simp
    from assms(3) show ?thesis
    proof
      assume p: "p = me"
      let ?cvm = "\<lambda>m. mm_val d' (b[m := me]) opp me opp"
      let ?cva = "\<lambda>a m. ab_val d' (b[m := me]) opp a beta me opp"
      let ?cka = "\<lambda>a m. ab_cnt d' (b[m := me]) opp a beta me opp"
      have kid: "bounded_by a beta (?cvm m) (?cva a m)"
        if "m \<in> set (moves b)" "a < beta" for m a
        using child_ok [OF assms(2) le that(1) sides(1)] that(2)
          search_agree [OF assms(1), of "b[m := me]" opp d' a beta] by simp
      have top: "?cvm m < beta" if "m \<in> set (moves b)" for m
        using child_ok [OF assms(2) le that sides(1)] assms(6)
          mm_val_range(2) [OF assms(1), of "b[m := me]" opp d'] by simp
      have "fst (prune_max ?cva ?cka beta (moves b) (- 2, None) alpha) =
              foldl (upd_max ?cvm) (- 2, None) (moves b)"
        using kid top assms(5,6) by (intro prune_max_exact) simp_all
      then show ?thesis
        unfolding d p minimax_node_max [OF assms(1,2) le nt]
          alphabeta_node_max [OF assms(1,2) le nt]
        by simp
    next
      assume p: "p = opp"
      let ?cvm = "\<lambda>m. mm_val d' (b[m := opp]) me me opp"
      let ?cva = "\<lambda>bt m. ab_val d' (b[m := opp]) me alpha bt me opp"
      let ?cka = "\<lambda>bt m. ab_cnt d' (b[m := opp]) me alpha bt me opp"
      have kid: "bounded_by alpha bt (?cvm m) (?cva bt m)"
        if "m \<in> set (moves b)" "alpha < bt" for m bt
        using child_ok [OF assms(2) le that(1) sides(2)] that(2)
          search_agree [OF assms(1), of "b[m := opp]" me d' alpha bt] by simp
      have bot: "alpha < ?cvm m" if "m \<in> set (moves b)" for m
        using child_ok [OF assms(2) le that sides(2)] assms(5)
          mm_val_range(1) [OF assms(1), of "b[m := opp]" me d'] by simp
      have "fst (prune_min ?cva ?cka alpha (moves b) (2, None) beta) =
              foldl (upd_min ?cvm) (2, None) (moves b)"
        using kid bot assms(5,6) by (intro prune_min_exact) simp_all
      then show ?thesis
        unfolding d p minimax_node_min [OF assms(1,2) le nt]
          alphabeta_node_min [OF assms(1,2) le nt]
        by simp
    qed
  qed
qed

section \<open>The first best move\<close>

lemma sorted_distinct_before:
  assumes "sorted (pre @ m # post)" "distinct (pre @ m # post)"
    and "x \<in> set (pre @ m # post)" "x < (m::nat)"
  shows "x \<in> set pre"
proof (rule ccontr)
  assume "x \<notin> set pre"
  with assms(3,4) have "x \<in> set post" by auto
  with assms(1) have "m \<le> x" by (auto simp: sorted_append)
  with assms(4) show False by simp
qed

text \<open>
  On an unfinished board the exhaustive search returns the value and index of a child
  whose value no other child beats, and every legal move of lower index has a strictly
  worse child.
\<close>

lemma minimax_first_max:
  assumes "valid_sides me opp" "length b = 9" "length (moves b) \<le> d" "terminal b = Inr False"
  shows "\<exists>m \<in> set (moves b).
           fst (minimax (Suc d) b me me opp n) = Inr (mm_val d (b[m := me]) opp me opp, Some m) \<and>
           (\<forall>x \<in> set (moves b). mm_val d (b[x := me]) opp me opp \<le> mm_val d (b[m := me]) opp me opp) \<and>
           (\<forall>x \<in> set (moves b). x < m \<longrightarrow>
              mm_val d (b[x := me]) opp me opp < mm_val d (b[m := me]) opp me opp)"
proof -
  let ?cv = "\<lambda>m. mm_val d (b[m := me]) opp me opp"
  from assms(1) have sides: "me \<noteq> '' ''" by (simp add: valid_sides_def)
  from assms(4) have ne: "moves b \<noteq> []" by (rule not_terminal_moves)
  then obtain x where x: "x \<in> set (moves b)" by (cases "moves b") auto
  have low: "- 1 \<le> ?cv y" if "y \<in> set (moves b)" for y
    using child_ok [OF assms(2,3) that sides]
    by (intro mm_val_range [OF assms(1)]) simp_all
  from low [OF x] x have "\<not> (\<forall>m \<in> set (moves b). ?cv m \<le> fst (- 2 :: int, None :: nat option))"
    by force
  with fold_max_char [of ?cv "(- 2, None)" "moves b"] obtain pre m post where
    *: "moves b = pre @ m # post" "foldl (upd_max ?cv) (- 2, None) (moves b) = (?cv m, Some m)"
       "\<forall>x \<in> set pre. ?cv x < ?cv m" "\<forall>x \<in> set post. ?cv x \<le> ?cv m"
    by blast
  have "\<forall>x \<in> set (moves b). ?cv x \<le> ?cv m"
    using *(3,4) unfolding *(1) by (auto simp: less_imp_le)
  moreover have "\<forall>x \<in> set (moves b). x < m \<longrightarrow> ?cv x < ?cv m"
  proof (intro ballI impI)
    fix x
    assume "x \<in> set (moves b)" "x < m"
    with sorted_distinct_before [of pre m post x] moves_sorted [of b] moves_distinct [of b]
    have "x \<in> set pre" unfolding *(1) by simp
    with *(3) show "?cv x < ?cv m" by simp
  qed
  moreover have "m \<in> set (moves b)" unfolding *(1) by simp
  ultimately show ?thesis
    unfolding minimax_node_max [OF assms] using *(2) by auto
qed

lemma minimax_first_min:
  assumes "valid_sides me opp" "length b = 9" "length (moves b) \<le> d" "terminal b = Inr False"
  shows "\<exists>m \<in> set (moves b).
           fst (minimax (Suc d) b opp me opp n) = Inr (mm_val d (b[m := opp]) me me opp, Some m) \<and>
           (\<forall>x \<in> set (moves b). mm_val d (b[m := opp]) me me opp \<le> mm_val d (b[x := opp]) me me opp) \<and>
           (\<forall>x \<in> set (moves b). x < m \<longrightarrow>
              mm_val d (b[m := opp]) me me opp < mm_val d (b[x := opp]) me me opp)"
proof -
  let ?cv = "\<lambda>m. mm_val d (b[m := opp]) me me opp"
  from assms(1) have sides: "opp \<noteq> '' ''" by (simp add: valid_sides_def)
  from assms(4) have ne: "moves b \<noteq> []" by (rule not_terminal_moves)
  then obtain x where x: "x \<in> set (moves b)" by (cases "moves b") auto
  have high: "?cv y \<le> 1" if "y \<in> set (moves b)" for y
    using child_ok [OF assms(2,3) that sides]
    by (intro mm_val_range [OF assms(1)]) simp_all
  from high [OF x] x have "\<not> (\<forall>m \<in> set (moves b). fst (2 :: int, None :: nat option) \<le> ?cv m)"
    by force
  with fold_min_char [of ?cv "(2, None)" "moves b"] obtain pre m post where
    *: "moves b = pre @ m # post" "foldl (upd_min ?cv) (2, None) (moves b) = (?cv m, Some m)"
       "\<forall>x \<in> set pre. ?cv m < ?cv x" "\<forall>x \<in> set post. ?cv m \<le> ?cv x"
    by blast
  have "\<forall>x \<in> set (moves b). ?cv m \<le> ?cv x"
    using *(3,4) unfolding *(1) by (auto simp: less_imp_le)
  moreover have "\<forall>x \<in> set (moves b). x < m \<longrightarrow> ?cv m < ?cv x"
  proof (intro ballI impI)
    fix x
    assume "x \<in> set (moves b)" "x < m"
    with sorted_distinct_before [of pre m post x] moves_sorted [of b] moves_distinct [of b]
    have "x \<in> set pre" unfolding *(1) by simp
    with *(3) show "?cv m < ?cv x" by simp
  qed
  moreover have "m \<in> set (moves b)" unfolding *(1) by simp
  ultimately show ?thesis
    unfolding minimax_node_min [OF assms] using *(2) by auto
qed

section \<open>The value of the game\<close>

lemma can_force_ge_mono:
  "can_force_ge me opp v b p \<Longrightarrow> w \<le> v \<Longrightarrow> can_force_ge me opp w b p"
proof (induction rule: can_force_ge.induct)
  case (ge_final b u p)
  then show ?case by (intro can_force_ge.ge_final [of b me opp u]) simp_all
next
  case (ge_mine b m)
  then show ?case by (intro can_force_ge.ge_mine [of b m]) simp_all
next
  case (ge_theirs b)
  then show ?case by (intro can_force_ge.ge_theirs) simp_all
qed

lemma can_force_le_mono:
  "can_force_le me opp v b p \<Longrightarrow> v \<le> w \<Longrightarrow> can_force_le me opp w b p"
proof (induction rule: can_force_le.induct)
  case (le_final b u p)
  then show ?case by (intro can_force_le.le_final [of b me opp u]) simp_all
next
  case (le_theirs b m)
  then show ?case by (intro can_force_le.le_theirs [of b m]) simp_all
next
  case (le_mine b)
  then show ?case by (intro can_force_le.le_mine) simp_all
qed

text \<open>
  What one side can force bounds what the other can: the value of a position is unique.
\<close>

lemma can_force_consistent:
  assumes "me \<noteq> opp"
  shows "can_force_ge me opp v b p \<Longrightarrow> can_force_le me opp w b p \<Longrightarrow> v \<le> w"
proof (induction arbitrary: w rule: can_force_ge.induct)
  case (ge_final b u p)
  from ge_final(4) ge_final(1,2,3) show ?case
    by (cases rule: can_force_le.cases) auto
next
  case (ge_mine b m)
  from ge_mine(5) show ?case
  proof (cases rule: can_force_le.cases)
    case (le_final u)
    with ge_mine(1) show ?thesis by simp
  next
    case (le_theirs m')
    with assms show ?thesis by simp
  next
    case le_mine
    with ge_mine(2) have "can_force_le me opp w (b[m := me]) opp" by simp
    then show ?thesis by (rule ge_mine(4))
  qed
next
  case (ge_theirs b)
  from ge_theirs(3) show ?case
  proof (cases rule: can_force_le.cases)
    case (le_final u)
    with ge_theirs(1) show ?thesis by simp
  next
    case (le_theirs m')
    with ge_theirs(2) show ?thesis by blast
  next
    case le_mine
    with assms show ?thesis by simp
  qed
qed

lemma game_value_unique:
  assumes "me \<noteq> opp" "game_value me opp b p v" "game_value me opp b p w"
  shows "v = w"
  using can_force_consistent [OF assms(1), of v b p w]
    can_force_consistent [OF assms(1), of w b p v] assms(2,3)
  by (simp add: game_value_def)

text \<open>The value returned by the exhaustive search is the value of the position.\<close>

lemma minimax_game_value:
  assumes "valid_sides me opp"
  shows "length b = 9 \<Longrightarrow> p = me \<or> p = opp \<Longrightarrow> length (moves b) < d \<Longrightarrow>
         game_value me opp b p (mm_val d b p me opp)"
proof (induction d arbitrary: b p)
  case 0
  then show ?case by simp
next
  case (Suc d)
  from assms have sides: "me \<noteq> '' ''" "opp \<noteq> '' ''" "me \<noteq> opp"
    by (simp_all add: valid_sides_def)
  from Suc.prems(3) have le: "length (moves b) \<le> d" by simp
  from terminal_total [OF Suc.prems(1)] obtain t where t: "terminal b = Inr t" ..
  show ?case
  proof (cases t)
    case True
    with t have tt: "terminal b = Inr True" by simp
    from mm_terminal(1) [OF tt, of me opp d p] tt show ?thesis
      unfolding game_value_def
      by (intro conjI can_force_ge.ge_final [of b me opp "mm_val (Suc d) b p me opp"]
          can_force_le.le_final [of b me opp "mm_val (Suc d) b p me opp"]) simp_all
  next
    case False
    with t have nt: "terminal b = Inr False" by simp
    from Suc.prems(2) show ?thesis
    proof
      assume p: "p = me"
      let ?cv = "\<lambda>m. mm_val d (b[m := me]) opp me opp"
      have kid: "game_value me opp (b[m := me]) opp (?cv m)" if "m \<in> set (moves b)" for m
        using child_ok [OF Suc.prems(1) le that sides(1)] by (intro Suc.IH) simp_all
      from minimax_first_max [OF assms Suc.prems(1) le nt, of 0] obtain m where
        m: "m \<in> set (moves b)" "fst (minimax (Suc d) b me me opp 0) = Inr (?cv m, Some m)"
           "\<forall>x \<in> set (moves b). ?cv x \<le> ?cv m"
        by blast
      from m(2) have v: "mm_val (Suc d) b me me opp = ?cv m"
        unfolding mm_val_def by simp
      from kid [OF m(1)] have "can_force_ge me opp (?cv m) b me"
        unfolding game_value_def by (intro can_force_ge.ge_mine [OF nt m(1)]) simp
      moreover have "can_force_le me opp (?cv m) b me"
      proof (intro can_force_le.le_mine [OF nt] ballI)
        fix x
        assume x: "x \<in> set (moves b)"
        from kid [OF x] have c: "can_force_le me opp (?cv x) (b[x := me]) opp"
          by (simp add: game_value_def)
        from m(3) x have "?cv x \<le> ?cv m" by simp
        from can_force_le_mono [OF c this]
        show "can_force_le me opp (?cv m) (b[x := me]) opp" .
      qed
      ultimately show ?thesis unfolding p v game_value_def by simp
    next
      assume p: "p = opp"
      let ?cv = "\<lambda>m. mm_val d (b[m := opp]) me me opp"
      have kid: "game_value me opp (b[m := opp]) me (?cv m)" if "m \<in> set (moves b)" for m
        using child_ok [OF Suc.prems(1) le that sides(2)] by (intro Suc.IH) simp_all
      from minimax_first_min [OF assms Suc.prems(1) le nt, of 0] obtain m where
        m: "m \<in> set (moves b)" "fst (minimax (Suc d) b opp me opp 0) = Inr (?cv m, Some m)"
           "\<forall>x \<in> set (moves b). ?cv m \<le> ?cv x"
        by blast
      from m(2) have v: "mm_val (Suc d) b opp me opp = ?cv m"
        unfolding mm_val_def by simp
      from kid [OF m(1)] have "can_force_le me opp (?cv m) b opp"
        unfolding game_value_def by (intro can_force_le.le_theirs [OF nt m(1)]) simp
      moreover have "can_force_ge me opp (?cv m) b opp"
      proof (intro can_force_ge.ge_theirs [OF nt] ballI)
        fix x
        assume x: "x \<in> set (moves b)"
        from kid [OF x] have c: "can_force_ge me opp (?cv x) (b[x := opp]) me"
          by (simp add: game_value_def)
        from m(3) x have "?cv m \<le> ?cv x" by simp
        from can_force_ge_mono [OF c this]
        show "can_force_ge me opp (?cv m) (b[x := opp]) me" .
      qed
      ultimately show ?thesis unfolding p v game_value_def by simp
    qed
  qed
qed

section \<open>The searches on the store: same results, older objects untouched\<close>

text \<open>
  A search on the store returns what the search on the value of its board returns, and
  leaves a store that holds every earlier object unchanged, with new ones after them.
\<close>

lemma copy_write:
  assumes "board < length s"
  shows "length s < length ((s @ [s ! board])[length s := ((s @ [s ! board]) ! length s)[m := p]])"
    and "((s @ [s ! board])[length s := ((s @ [s ! board]) ! length s)[m := p]]) ! length s =
           (s ! board)[m := p]"
    and "\<forall>a < length s.
           ((s @ [s ! board])[length s := ((s @ [s ! board]) ! length s)[m := p]]) ! a = s ! a"
  by (simp_all add: nth_append)

lemma minimax_loop_st_sim:
  assumes child: "\<And>s2 b2 q k. b2 < length s2 \<Longrightarrow>
      \<exists>s'. minimax_st d s2 b2 q me opp k =
             (fst (minimax d (s2 ! b2) q me opp k), snd (minimax d (s2 ! b2) q me opp k), s') \<and>
           length s2 \<le> length s' \<and> (\<forall>a < length s2. s' ! a = s2 ! a)"
  shows "board < length s \<Longrightarrow>
      \<exists>s'. minimax_loop_st d s board p me opp ms best n =
             (fst (minimax_loop d (s ! board) p me opp ms best n),
              snd (minimax_loop d (s ! board) p me opp ms best n), s') \<and>
           length s \<le> length s' \<and> (\<forall>a < length s. s' ! a = s ! a)"
proof (induction ms arbitrary: s best n)
  case Nil
  then show ?case by (simp add: minimax_loop.simps)
next
  case (Cons m ms)
  let ?s2 = "(s @ [s ! board])[length s := ((s @ [s ! board]) ! length s)[m := p]]"
  let ?q = "if p = me then opp else me"
  let ?R = "minimax d ((s ! board)[m := p]) ?q me opp n"
  note cw = copy_write [OF Cons.prems, of m p]
  from child [OF cw(1), of ?q n] cw(2) obtain s' where
    s': "minimax_st d ?s2 (length s) ?q me opp n = (fst ?R, snd ?R, s')"
        "length ?s2 \<le> length s'" "\<forall>a < length ?s2. s' ! a = ?s2 ! a"
    by auto
  from s'(2,3) cw(1,3) have ext: "length s \<le> length s'" "\<forall>a < length s. s' ! a = s ! a"
    by auto
  show ?case
  proof (cases "fst ?R")
    case (Inl e)
    then have R: "?R = (Inl e, snd ?R)" by (cases ?R) simp
    have "minimax_loop_st d s board p me opp (m # ms) best n = (Inl e, snd ?R, s')"
      using s'(1) Inl by (simp add: Let_def)
    moreover have "minimax_loop d (s ! board) p me opp (m # ms) best n = (Inl e, snd ?R)"
      by (subst minimax_loop.simps(2), subst R) simp
    ultimately show ?thesis using ext by simp
  next
    case (Inr r)
    obtain val mv where r: "r = (val, mv)" by (cases r)
    let ?best = "if p = me \<and> val > fst best then (val, Some m)
                 else if p = opp \<and> val < fst best then (val, Some m) else best"
    from Inr r have R: "?R = (Inr (val, mv), snd ?R)" by (cases ?R) simp
    from Cons.prems ext have b': "board < length s'" "s' ! board = s ! board" by auto
    from Cons.IH [OF b'(1), of ?best "snd ?R"] b'(2) obtain s'' where
      s'': "minimax_loop_st d s' board p me opp ms ?best (snd ?R) =
              (fst (minimax_loop d (s ! board) p me opp ms ?best (snd ?R)),
               snd (minimax_loop d (s ! board) p me opp ms ?best (snd ?R)), s'')"
           "length s' \<le> length s''" "\<forall>a < length s'. s'' ! a = s' ! a"
      by auto
    from s''(2,3) ext have "length s \<le> length s''" "\<forall>a < length s. s'' ! a = s ! a"
      by auto
    moreover have "minimax_loop_st d s board p me opp (m # ms) best n =
        minimax_loop_st d s' board p me opp ms ?best (snd ?R)"
      using s'(1) Inr r by (simp add: Let_def)
    moreover have "minimax_loop d (s ! board) p me opp (m # ms) best n =
        minimax_loop d (s ! board) p me opp ms ?best (snd ?R)"
      by (subst minimax_loop.simps(2), subst R) simp
    ultimately show ?thesis using s''(1) by simp
  qed
qed

lemma minimax_st_sim:
  "board < length s \<Longrightarrow>
   \<exists>s'. minimax_st d s board p me opp n =
          (fst (minimax d (s ! board) p me opp n), snd (minimax d (s ! board) p me opp n), s') \<and>
        length s \<le> length s' \<and> (\<forall>a < length s. s' ! a = s ! a)"
proof (induction d arbitrary: s board p n)
  case 0
  then show ?case by (simp add: minimax.simps)
next
  case (Suc d)
  from minimax_loop_st_sim [of d me opp board s p "moves (s ! board)", OF Suc.IH Suc.prems]
  have loop: "\<exists>s'. minimax_loop_st d s board p me opp (moves (s ! board)) best k =
             (fst (minimax_loop d (s ! board) p me opp (moves (s ! board)) best k),
              snd (minimax_loop d (s ! board) p me opp (moves (s ! board)) best k), s') \<and>
           length s \<le> length s' \<and> (\<forall>a < length s. s' ! a = s ! a)" for best k
    by simp
  show ?case
  proof (cases "terminal (s ! board)")
    case (Inl e)
    then show ?thesis by (simp add: minimax.simps)
  next
    case (Inr t)
    show ?thesis
    proof (cases t)
      case True
      with Inr show ?thesis by (simp add: minimax.simps split: sum.splits)
    next
      case False
      with Inr loop [of "(if p = me then - 2 else 2, None)" "n + 1"] show ?thesis
        by (simp add: minimax.simps)
    qed
  qed
qed

lemma alphabeta_max_st_sim:
  assumes child: "\<And>s2 b2 q a bt k. b2 < length s2 \<Longrightarrow>
      \<exists>s'. alphabeta_st d s2 b2 q a bt me opp k =
             (fst (alphabeta d (s2 ! b2) q a bt me opp k),
              snd (alphabeta d (s2 ! b2) q a bt me opp k), s') \<and>
           length s2 \<le> length s' \<and> (\<forall>a < length s2. s' ! a = s2 ! a)"
  shows "board < length s \<Longrightarrow>
      \<exists>s'. alphabeta_max_st d s board p me opp ms best alpha beta n =
             (fst (alphabeta_max d (s ! board) p me opp ms best alpha beta n),
              snd (alphabeta_max d (s ! board) p me opp ms best alpha beta n), s') \<and>
           length s \<le> length s' \<and> (\<forall>a < length s. s' ! a = s ! a)"
proof (induction ms arbitrary: s best alpha n)
  case Nil
  then show ?case by (simp add: alphabeta_max.simps)
next
  case (Cons m ms)
  let ?s2 = "(s @ [s ! board])[length s := ((s @ [s ! board]) ! length s)[m := p]]"
  let ?R = "alphabeta d ((s ! board)[m := p]) opp alpha beta me opp n"
  note cw = copy_write [OF Cons.prems, of m p]
  from child [OF cw(1), of opp alpha beta n] cw(2) obtain s' where
    s': "alphabeta_st d ?s2 (length s) opp alpha beta me opp n = (fst ?R, snd ?R, s')"
        "length ?s2 \<le> length s'" "\<forall>a < length ?s2. s' ! a = ?s2 ! a"
    by auto
  from s'(2,3) cw(1,3) have ext: "length s \<le> length s'" "\<forall>a < length s. s' ! a = s ! a"
    by auto
  show ?case
  proof (cases "fst ?R")
    case (Inl e)
    then have R: "?R = (Inl e, snd ?R)" by (cases ?R) simp
    have "alphabeta_max_st d s board p me opp (m # ms) best alpha beta n = (Inl e, snd ?R, s')"
      using s'(1) Inl by (simp add: Let_def)
    moreover have "alphabeta_max d (s ! board) p me opp (m # ms) best alpha beta n =
        (Inl e, snd ?R)"
      by (subst alphabeta_max.simps(2), subst R) simp
    ultimately show ?thesis using ext by simp
  next
    case (Inr r)
    obtain val mv where r: "r = (val, mv)" by (cases r)
    let ?best = "if val > fst best then (val, Some m) else best"
    from Inr r have R: "?R = (Inr (val, mv), snd ?R)" by (cases ?R) simp
    show ?thesis
    proof (cases "max alpha val \<ge> beta")
      case True
      have "alphabeta_max_st d s board p me opp (m # ms) best alpha beta n =
          (Inr ?best, snd ?R, s')"
        using s'(1) Inr r True by (simp add: Let_def del: max.bounded_iff)
      moreover have "alphabeta_max d (s ! board) p me opp (m # ms) best alpha beta n =
          (Inr ?best, snd ?R)"
        using True by (subst alphabeta_max.simps(2), subst R) (simp add: Let_def del: max.bounded_iff)
      ultimately show ?thesis using ext by simp
    next
      case False
      from Cons.prems ext have b': "board < length s'" "s' ! board = s ! board" by auto
      from Cons.IH [OF b'(1), of ?best "max alpha val" "snd ?R"] b'(2) obtain s'' where
        s'': "alphabeta_max_st d s' board p me opp ms ?best (max alpha val) beta (snd ?R) =
                (fst (alphabeta_max d (s ! board) p me opp ms ?best (max alpha val) beta (snd ?R)),
                 snd (alphabeta_max d (s ! board) p me opp ms ?best (max alpha val) beta (snd ?R)),
                 s'')"
             "length s' \<le> length s''" "\<forall>a < length s'. s'' ! a = s' ! a"
        by auto
      from s''(2,3) ext have "length s \<le> length s''" "\<forall>a < length s. s'' ! a = s ! a"
        by auto
      moreover have "alphabeta_max_st d s board p me opp (m # ms) best alpha beta n =
          alphabeta_max_st d s' board p me opp ms ?best (max alpha val) beta (snd ?R)"
        using s'(1) Inr r False by (simp add: Let_def del: max.bounded_iff)
      moreover have "alphabeta_max d (s ! board) p me opp (m # ms) best alpha beta n =
          alphabeta_max d (s ! board) p me opp ms ?best (max alpha val) beta (snd ?R)"
        using False by (subst alphabeta_max.simps(2), subst R) (simp add: Let_def del: max.bounded_iff)
      ultimately show ?thesis using s''(1) by simp
    qed
  qed
qed

lemma alphabeta_min_st_sim:
  assumes child: "\<And>s2 b2 q a bt k. b2 < length s2 \<Longrightarrow>
      \<exists>s'. alphabeta_st d s2 b2 q a bt me opp k =
             (fst (alphabeta d (s2 ! b2) q a bt me opp k),
              snd (alphabeta d (s2 ! b2) q a bt me opp k), s') \<and>
           length s2 \<le> length s' \<and> (\<forall>a < length s2. s' ! a = s2 ! a)"
  shows "board < length s \<Longrightarrow>
      \<exists>s'. alphabeta_min_st d s board p me opp ms best alpha beta n =
             (fst (alphabeta_min d (s ! board) p me opp ms best alpha beta n),
              snd (alphabeta_min d (s ! board) p me opp ms best alpha beta n), s') \<and>
           length s \<le> length s' \<and> (\<forall>a < length s. s' ! a = s ! a)"
proof (induction ms arbitrary: s best beta n)
  case Nil
  then show ?case by (simp add: alphabeta_min.simps)
next
  case (Cons m ms)
  let ?s2 = "(s @ [s ! board])[length s := ((s @ [s ! board]) ! length s)[m := p]]"
  let ?R = "alphabeta d ((s ! board)[m := p]) me alpha beta me opp n"
  note cw = copy_write [OF Cons.prems, of m p]
  from child [OF cw(1), of me alpha beta n] cw(2) obtain s' where
    s': "alphabeta_st d ?s2 (length s) me alpha beta me opp n = (fst ?R, snd ?R, s')"
        "length ?s2 \<le> length s'" "\<forall>a < length ?s2. s' ! a = ?s2 ! a"
    by auto
  from s'(2,3) cw(1,3) have ext: "length s \<le> length s'" "\<forall>a < length s. s' ! a = s ! a"
    by auto
  show ?case
  proof (cases "fst ?R")
    case (Inl e)
    then have R: "?R = (Inl e, snd ?R)" by (cases ?R) simp
    have "alphabeta_min_st d s board p me opp (m # ms) best alpha beta n = (Inl e, snd ?R, s')"
      using s'(1) Inl by (simp add: Let_def)
    moreover have "alphabeta_min d (s ! board) p me opp (m # ms) best alpha beta n =
        (Inl e, snd ?R)"
      by (subst alphabeta_min.simps(2), subst R) simp
    ultimately show ?thesis using ext by simp
  next
    case (Inr r)
    obtain val mv where r: "r = (val, mv)" by (cases r)
    let ?best = "if val < fst best then (val, Some m) else best"
    from Inr r have R: "?R = (Inr (val, mv), snd ?R)" by (cases ?R) simp
    show ?thesis
    proof (cases "alpha \<ge> min beta val")
      case True
      have "alphabeta_min_st d s board p me opp (m # ms) best alpha beta n =
          (Inr ?best, snd ?R, s')"
        using s'(1) Inr r True by (simp add: Let_def del: min.bounded_iff)
      moreover have "alphabeta_min d (s ! board) p me opp (m # ms) best alpha beta n =
          (Inr ?best, snd ?R)"
        using True by (subst alphabeta_min.simps(2), subst R) (simp add: Let_def del: min.bounded_iff)
      ultimately show ?thesis using ext by simp
    next
      case False
      from Cons.prems ext have b': "board < length s'" "s' ! board = s ! board" by auto
      from Cons.IH [OF b'(1), of ?best "min beta val" "snd ?R"] b'(2) obtain s'' where
        s'': "alphabeta_min_st d s' board p me opp ms ?best alpha (min beta val) (snd ?R) =
                (fst (alphabeta_min d (s ! board) p me opp ms ?best alpha (min beta val) (snd ?R)),
                 snd (alphabeta_min d (s ! board) p me opp ms ?best alpha (min beta val) (snd ?R)),
                 s'')"
             "length s' \<le> length s''" "\<forall>a < length s'. s'' ! a = s' ! a"
        by auto
      from s''(2,3) ext have "length s \<le> length s''" "\<forall>a < length s. s'' ! a = s ! a"
        by auto
      moreover have "alphabeta_min_st d s board p me opp (m # ms) best alpha beta n =
          alphabeta_min_st d s' board p me opp ms ?best alpha (min beta val) (snd ?R)"
        using s'(1) Inr r False by (simp add: Let_def del: min.bounded_iff)
      moreover have "alphabeta_min d (s ! board) p me opp (m # ms) best alpha beta n =
          alphabeta_min d (s ! board) p me opp ms ?best alpha (min beta val) (snd ?R)"
        using False by (subst alphabeta_min.simps(2), subst R) (simp add: Let_def del: min.bounded_iff)
      ultimately show ?thesis using s''(1) by simp
    qed
  qed
qed

lemma alphabeta_st_sim:
  "board < length s \<Longrightarrow>
   \<exists>s'. alphabeta_st d s board p alpha beta me opp n =
          (fst (alphabeta d (s ! board) p alpha beta me opp n),
           snd (alphabeta d (s ! board) p alpha beta me opp n), s') \<and>
        length s \<le> length s' \<and> (\<forall>a < length s. s' ! a = s ! a)"
proof (induction d arbitrary: s board p alpha beta n)
  case 0
  then show ?case by (simp add: alphabeta.simps)
next
  case (Suc d)
  from alphabeta_max_st_sim [of d me opp board s p "moves (s ! board)", OF Suc.IH Suc.prems]
  have lmax: "\<exists>s'. alphabeta_max_st d s board p me opp (moves (s ! board)) best a bt k =
             (fst (alphabeta_max d (s ! board) p me opp (moves (s ! board)) best a bt k),
              snd (alphabeta_max d (s ! board) p me opp (moves (s ! board)) best a bt k), s') \<and>
           length s \<le> length s' \<and> (\<forall>a < length s. s' ! a = s ! a)" for best a bt k
    by simp
  from alphabeta_min_st_sim [of d me opp board s p "moves (s ! board)", OF Suc.IH Suc.prems]
  have lmin: "\<exists>s'. alphabeta_min_st d s board p me opp (moves (s ! board)) best a bt k =
             (fst (alphabeta_min d (s ! board) p me opp (moves (s ! board)) best a bt k),
              snd (alphabeta_min d (s ! board) p me opp (moves (s ! board)) best a bt k), s') \<and>
           length s \<le> length s' \<and> (\<forall>a < length s. s' ! a = s ! a)" for best a bt k
    by simp
  show ?case
  proof (cases "terminal (s ! board)")
    case (Inl e)
    then show ?thesis by (simp add: alphabeta.simps)
  next
    case (Inr t)
    show ?thesis
    proof (cases t)
      case True
      with Inr show ?thesis by (simp add: alphabeta.simps split: sum.splits)
    next
      case False
      with Inr lmax [of "(- 2, None)" alpha beta "n + 1"] lmin [of "(2, None)" alpha beta "n + 1"]
      show ?thesis
        by (cases "p = me") (simp_all add: alphabeta.simps)
    qed
  qed
qed

section \<open>Concrete positions\<close>

text \<open>
  The searches are run by rewriting, for any two valid sides. Boards are written out cell
  by cell; \<open>winner\<close>, \<open>moves\<close> and the item assignment on a nine-cell board are
  first brought into a form that rewrites in one step.
\<close>

lemma winner9:
  "winner [a, b, c, d, e, f, g, h, i] =
     (if a \<noteq> '' '' \<and> a = b \<and> b = c then Inr (Some a)
      else if d \<noteq> '' '' \<and> d = e \<and> e = f then Inr (Some d)
      else if g \<noteq> '' '' \<and> g = h \<and> h = i then Inr (Some g)
      else if a \<noteq> '' '' \<and> a = d \<and> d = g then Inr (Some a)
      else if b \<noteq> '' '' \<and> b = e \<and> e = h then Inr (Some b)
      else if c \<noteq> '' '' \<and> c = f \<and> f = i then Inr (Some c)
      else if a \<noteq> '' '' \<and> a = e \<and> e = i then Inr (Some a)
      else if c \<noteq> '' '' \<and> c = e \<and> e = g then Inr (Some c)
      else Inr None)"
  unfolding winner_def LINES_def
  by (simp add: winner_loop_step eval_nat_numeral del: winner_loop.simps(2)
      split del: if_split cong del: if_weak_cong)

lemma moves9:
  "moves [a, b, c, d, e, f, g, h, i] =
     (if a = '' '' then [0] else []) @ (if b = '' '' then [1] else []) @
     (if c = '' '' then [2] else []) @ (if d = '' '' then [3] else []) @
     (if e = '' '' then [4] else []) @ (if f = '' '' then [5] else []) @
     (if g = '' '' then [6] else []) @ (if h = '' '' then [7] else []) @
     (if i = '' '' then [8] else [])"
  by (simp add: moves_def eval_nat_numeral)

lemma update9:
  "[a, b, c, d, e, f, g, h, i][0 := p] = [p, b, c, d, e, f, g, h, i]"
  "[a, b, c, d, e, f, g, h, i][1 := p] = [a, p, c, d, e, f, g, h, i]"
  "[a, b, c, d, e, f, g, h, i][2 := p] = [a, b, p, d, e, f, g, h, i]"
  "[a, b, c, d, e, f, g, h, i][3 := p] = [a, b, c, p, e, f, g, h, i]"
  "[a, b, c, d, e, f, g, h, i][4 := p] = [a, b, c, d, p, f, g, h, i]"
  "[a, b, c, d, e, f, g, h, i][5 := p] = [a, b, c, d, e, p, g, h, i]"
  "[a, b, c, d, e, f, g, h, i][6 := p] = [a, b, c, d, e, f, p, h, i]"
  "[a, b, c, d, e, f, g, h, i][7 := p] = [a, b, c, d, e, f, g, p, i]"
  "[a, b, c, d, e, f, g, h, i][8 := p] = [a, b, c, d, e, f, g, h, p]"
  by (simp_all add: eval_nat_numeral)

lemma value_order:
  "((- 2::int) < - 2) = False" "((- 2::int) \<le> - 2) = True"
  "((- 2::int) < - 1) = True" "((- 2::int) \<le> - 1) = True"
  "((- 2::int) < 0) = True" "((- 2::int) \<le> 0) = True"
  "((- 2::int) < 1) = True" "((- 2::int) \<le> 1) = True"
  "((- 2::int) < 2) = True" "((- 2::int) \<le> 2) = True"
  "((- 1::int) < - 2) = False" "((- 1::int) \<le> - 2) = False"
  "((- 1::int) < - 1) = False" "((- 1::int) \<le> - 1) = True"
  "((- 1::int) < 0) = True" "((- 1::int) \<le> 0) = True"
  "((- 1::int) < 1) = True" "((- 1::int) \<le> 1) = True"
  "((- 1::int) < 2) = True" "((- 1::int) \<le> 2) = True"
  "((0::int) < - 2) = False" "((0::int) \<le> - 2) = False"
  "((0::int) < - 1) = False" "((0::int) \<le> - 1) = False"
  "((0::int) < 0) = False" "((0::int) \<le> 0) = True"
  "((0::int) < 1) = True" "((0::int) \<le> 1) = True"
  "((0::int) < 2) = True" "((0::int) \<le> 2) = True"
  "((1::int) < - 2) = False" "((1::int) \<le> - 2) = False"
  "((1::int) < - 1) = False" "((1::int) \<le> - 1) = False"
  "((1::int) < 0) = False" "((1::int) \<le> 0) = False"
  "((1::int) < 1) = False" "((1::int) \<le> 1) = True"
  "((1::int) < 2) = True" "((1::int) \<le> 2) = True"
  "((2::int) < - 2) = False" "((2::int) \<le> - 2) = False"
  "((2::int) < - 1) = False" "((2::int) \<le> - 1) = False"
  "((2::int) < 0) = False" "((2::int) \<le> 0) = False"
  "((2::int) < 1) = False" "((2::int) \<le> 1) = False"
  "((2::int) < 2) = False" "((2::int) \<le> 2) = True"
  by simp_all

lemma sides_distinct:
  assumes "valid_sides me opp"
  shows "(me = '' '') = False" "(opp = '' '') = False" "(me = opp) = False"
    "('' '' = me) = False" "('' '' = opp) = False" "(opp = me) = False"
  using assms by (auto simp: valid_sides_def)

lemma terminal9:
  "terminal [a, b, c, d, e, f, g, h, i] =
     (if a \<noteq> '' '' \<and> a = b \<and> b = c then Inr True
      else if d \<noteq> '' '' \<and> d = e \<and> e = f then Inr True
      else if g \<noteq> '' '' \<and> g = h \<and> h = i then Inr True
      else if a \<noteq> '' '' \<and> a = d \<and> d = g then Inr True
      else if b \<noteq> '' '' \<and> b = e \<and> e = h then Inr True
      else if c \<noteq> '' '' \<and> c = f \<and> f = i then Inr True
      else if a \<noteq> '' '' \<and> a = e \<and> e = i then Inr True
      else if c \<noteq> '' '' \<and> c = e \<and> e = g then Inr True
      else Inr (a \<noteq> '' '' \<and> b \<noteq> '' '' \<and> c \<noteq> '' '' \<and> d \<noteq> '' '' \<and> e \<noteq> '' '' \<and>
                f \<noteq> '' '' \<and> g \<noteq> '' '' \<and> h \<noteq> '' '' \<and> i \<noteq> '' ''))"
proof -
  have nil: "((if q then [x] else []) = []) = (\<not> q)" for q and x :: nat
    by simp
  have m: "(moves [a, b, c, d, e, f, g, h, i] = []) =
      (a \<noteq> '' '' \<and> b \<noteq> '' '' \<and> c \<noteq> '' '' \<and> d \<noteq> '' '' \<and> e \<noteq> '' '' \<and>
       f \<noteq> '' '' \<and> g \<noteq> '' '' \<and> h \<noteq> '' '' \<and> i \<noteq> '' '')"
    unfolding moves9 by (simp only: append_is_Nil_conv nil)
  show ?thesis
    unfolding terminal_def winner9 m
    by (simp only: if_distrib [where f = "case_sum f1 f2" for f1 f2] sum.case option.distinct
        simp_thms not_False_eq_True)
qed

lemmas run_search =
  terminal9 winner9 moves9 update9 utility_def Let_def value_order
  if_True if_False simp_thms sum.case prod.case bool.case fst_conv snd_conv
  append_Cons append_Nil list.distinct option.distinct option.inject max_def min_def
  arith_simps numeral_plus_one one_add_one add_0 not_False_eq_True not_True_eq_False
  one_plus_numeral
  minimax.simps minimax_loop.simps alphabeta.simps alphabeta_max.simps alphabeta_min.simps

text \<open>
  The nine boards after the first move on the empty board, searched by the pruned search
  with the bounds they get from the loop at the root.
\<close>

lemma alphabeta_first_0:
  assumes "valid_sides me opp"
  shows "alphabeta (Suc (Suc (Suc (Suc (Suc (Suc (Suc (Suc (Suc d)))))))))
           [me, '' '', '' '', '' '', '' '', '' '', '' '', '' '', '' ''] opp (- 2) 2 me opp 0 =
         (Inr (0, Some 4), 2338)"
  by (simp only: sides_distinct [OF assms] run_search
      cong: if_weak_cong sum.case_cong_weak prod.case_cong_weak bool.case_cong_weak)

lemma alphabeta_first_1:
  assumes "valid_sides me opp"
  shows "alphabeta (Suc (Suc (Suc (Suc (Suc (Suc (Suc (Suc (Suc d)))))))))
           ['' '', me, '' '', '' '', '' '', '' '', '' '', '' '', '' ''] opp (0) 2 me opp 0 =
         (Inr (0, Some 0), 1244)"
  by (simp only: sides_distinct [OF assms] run_search
      cong: if_weak_cong sum.case_cong_weak prod.case_cong_weak bool.case_cong_weak)

lemma alphabeta_first_2:
  assumes "valid_sides me opp"
  shows "alphabeta (Suc (Suc (Suc (Suc (Suc (Suc (Suc (Suc (Suc d)))))))))
           ['' '', '' '', me, '' '', '' '', '' '', '' '', '' '', '' ''] opp (0) 2 me opp 0 =
         (Inr (0, Some 4), 2428)"
  by (simp only: sides_distinct [OF assms] run_search
      cong: if_weak_cong sum.case_cong_weak prod.case_cong_weak bool.case_cong_weak)

lemma alphabeta_first_3:
  assumes "valid_sides me opp"
  shows "alphabeta (Suc (Suc (Suc (Suc (Suc (Suc (Suc (Suc (Suc d)))))))))
           ['' '', '' '', '' '', me, '' '', '' '', '' '', '' '', '' ''] opp (0) 2 me opp 0 =
         (Inr (0, Some 0), 626)"
  by (simp only: sides_distinct [OF assms] run_search
      cong: if_weak_cong sum.case_cong_weak prod.case_cong_weak bool.case_cong_weak)

lemma alphabeta_first_4:
  assumes "valid_sides me opp"
  shows "alphabeta (Suc (Suc (Suc (Suc (Suc (Suc (Suc (Suc (Suc d)))))))))
           ['' '', '' '', '' '', '' '', me, '' '', '' '', '' '', '' ''] opp (0) 2 me opp 0 =
         (Inr (0, Some 0), 610)"
  by (simp only: sides_distinct [OF assms] run_search
      cong: if_weak_cong sum.case_cong_weak prod.case_cong_weak bool.case_cong_weak)

lemma alphabeta_first_5:
  assumes "valid_sides me opp"
  shows "alphabeta (Suc (Suc (Suc (Suc (Suc (Suc (Suc (Suc (Suc d)))))))))
           ['' '', '' '', '' '', '' '', '' '', me, '' '', '' '', '' ''] opp (0) 2 me opp 0 =
         (Inr (0, Some 2), 1699)"
  by (simp only: sides_distinct [OF assms] run_search
      cong: if_weak_cong sum.case_cong_weak prod.case_cong_weak bool.case_cong_weak)

lemma alphabeta_first_6:
  assumes "valid_sides me opp"
  shows "alphabeta (Suc (Suc (Suc (Suc (Suc (Suc (Suc (Suc (Suc d)))))))))
           ['' '', '' '', '' '', '' '', '' '', '' '', me, '' '', '' ''] opp (0) 2 me opp 0 =
         (Inr (0, Some 4), 2993)"
  by (simp only: sides_distinct [OF assms] run_search
      cong: if_weak_cong sum.case_cong_weak prod.case_cong_weak bool.case_cong_weak)

lemma alphabeta_first_7:
  assumes "valid_sides me opp"
  shows "alphabeta (Suc (Suc (Suc (Suc (Suc (Suc (Suc (Suc (Suc d)))))))))
           ['' '', '' '', '' '', '' '', '' '', '' '', '' '', me, '' ''] opp (0) 2 me opp 0 =
         (Inr (0, Some 1), 3393)"
  by (simp only: sides_distinct [OF assms] run_search
      cong: if_weak_cong sum.case_cong_weak prod.case_cong_weak bool.case_cong_weak)

lemma alphabeta_first_8:
  assumes "valid_sides me opp"
  shows "alphabeta (Suc (Suc (Suc (Suc (Suc (Suc (Suc (Suc (Suc d)))))))))
           ['' '', '' '', '' '', '' '', '' '', '' '', '' '', '' '', me] opp (0) 2 me opp 0 =
         (Inr (0, Some 4), 2965)"
  by (simp only: sides_distinct [OF assms] run_search
      cong: if_weak_cong sum.case_cong_weak prod.case_cong_weak bool.case_cong_weak)

text \<open>The position of the second scenario: \<open>opp\<close> on 0 and 1, \<open>me\<close> on 3 and 4.\<close>

lemma minimax_block:
  assumes "valid_sides me opp"
  shows "minimax (Suc (Suc (Suc (Suc (Suc (Suc d))))))
           [opp, opp, '' '', me, me, '' '', '' '', '' '', '' ''] me me opp 0 =
         (Inr (1, Some 2), 145)"
  by (simp only: sides_distinct [OF assms] run_search
      cong: if_weak_cong sum.case_cong_weak prod.case_cong_weak bool.case_cong_weak)

lemma alphabeta_block:
  assumes "valid_sides me opp"
  shows "alphabeta (Suc (Suc (Suc (Suc (Suc (Suc d))))))
           [opp, opp, '' '', me, me, '' '', '' '', '' '', '' ''] me (- 2) 2 me opp 0 =
         (Inr (1, Some 2), 23)"
  by (simp only: sides_distinct [OF assms] run_search
      cong: if_weak_cong sum.case_cong_weak prod.case_cong_weak bool.case_cong_weak)

text \<open>Five moves down the first branch of the tree, pruning has already saved nodes.\<close>

lemma minimax_fifth_me:
  assumes "valid_sides me opp"
  shows "minimax (Suc (Suc (Suc (Suc (Suc d)))))
           [me, opp, me, opp, me, '' '', '' '', '' '', '' ''] opp me opp 0 =
         (Inr (1, Some 5), 41)"
  by (simp only: sides_distinct [OF assms] run_search
      cong: if_weak_cong sum.case_cong_weak prod.case_cong_weak bool.case_cong_weak)

lemma alphabeta_fifth_me:
  assumes "valid_sides me opp"
  shows "alphabeta (Suc (Suc (Suc (Suc (Suc d)))))
           [me, opp, me, opp, me, '' '', '' '', '' '', '' ''] opp (- 2) 2 me opp 0 =
         (Inr (1, Some 5), 32)"
  by (simp only: sides_distinct [OF assms] run_search
      cong: if_weak_cong sum.case_cong_weak prod.case_cong_weak bool.case_cong_weak)

lemma minimax_fifth_opp:
  assumes "valid_sides me opp"
  shows "minimax (Suc (Suc (Suc (Suc (Suc d)))))
           [opp, me, opp, me, opp, '' '', '' '', '' '', '' ''] me me opp 0 =
         (Inr (- 1, Some 5), 41)"
  by (simp only: sides_distinct [OF assms] run_search
      cong: if_weak_cong sum.case_cong_weak prod.case_cong_weak bool.case_cong_weak)

lemma alphabeta_fifth_opp:
  assumes "valid_sides me opp"
  shows "alphabeta (Suc (Suc (Suc (Suc (Suc d)))))
           [opp, me, opp, me, opp, '' '', '' '', '' '', '' ''] me (- 2) 2 me opp 0 =
         (Inr (- 1, Some 5), 32)"
  by (simp only: sides_distinct [OF assms] run_search
      cong: if_weak_cong sum.case_cong_weak prod.case_cong_weak bool.case_cong_weak)

section \<open>The node counter\<close>

text \<open>The result of a search does not depend on the counter, which it only adds to.\<close>

lemma minimax_counter:
  assumes "valid_sides me opp" "length b = 9" "p = me \<or> p = opp" "length (moves b) < d"
  shows "minimax d b p me opp n = (fst (minimax d b p me opp 0), n + snd (minimax d b p me opp 0))"
proof -
  from minimax_total [OF assms] obtain mv where
    "\<And>k. minimax d b p me opp k = (Inr (mm_val d b p me opp, mv), k + mm_cnt d b p me opp)"
    by blast
  from this [of n] this [of 0] show ?thesis by simp
qed

lemma alphabeta_counter:
  assumes "valid_sides me opp" "length b = 9" "p = me \<or> p = opp" "length (moves b) < d"
  shows "alphabeta d b p alpha beta me opp n =
           (fst (alphabeta d b p alpha beta me opp 0),
            n + snd (alphabeta d b p alpha beta me opp 0))"
proof -
  from alphabeta_total [OF assms, of alpha beta] obtain mv where
    "\<And>k. alphabeta d b p alpha beta me opp k =
          (Inr (ab_val d b p alpha beta me opp, mv), k + ab_cnt d b p alpha beta me opp)"
    by blast
  from this [of n] this [of 0] show ?thesis by simp
qed

lemma count_le:
  assumes "valid_sides me opp" "length b = 9" "p = me \<or> p = opp" "length (moves b) < d"
    and "alpha < beta"
  shows "snd (alphabeta d b p alpha beta me opp n) \<le> snd (minimax d b p me opp n)"
proof -
  from search_agree [OF assms]
  have "snd (alphabeta d b p alpha beta me opp 0) \<le> snd (minimax d b p me opp 0)"
    by (simp add: ab_cnt_def mm_cnt_def)
  then show ?thesis
    by (subst alphabeta_counter [OF assms(1-4)], subst minimax_counter [OF assms(1-4)]) simp
qed

text \<open>
  When the first child of an unfinished board is searched with fewer nodes by the pruned
  search, so is the board.
\<close>

lemma count_less_max:
  assumes "valid_sides me opp" "length b = 9" "length (moves b) \<le> d" "terminal b = Inr False"
    and "moves b = m # ms" "alpha < beta"
    and "ab_cnt d (b[m := me]) opp alpha beta me opp < mm_cnt d (b[m := me]) opp me opp"
  shows "ab_cnt (Suc d) b me alpha beta me opp < mm_cnt (Suc d) b me me opp"
proof -
  let ?cka = "\<lambda>a m. ab_cnt d (b[m := me]) opp a beta me opp"
  let ?ckm = "\<lambda>m. mm_cnt d (b[m := me]) opp me opp"
  from assms(1) have sides: "me \<noteq> '' ''" by (simp add: valid_sides_def)
  have "\<forall>x \<in> set (m # ms). \<forall>a. a < beta \<longrightarrow> ?cka a x \<le> ?ckm x"
  proof (intro ballI allI impI)
    fix x a
    assume "x \<in> set (m # ms)" "a < beta"
    then have "x \<in> set (moves b)" by (simp add: assms(5))
    from child_ok [OF assms(2,3) this sides] \<open>a < beta\<close>
      search_agree [OF assms(1), of "b[x := me]" opp d a beta]
    show "?cka a x \<le> ?ckm x" by simp
  qed
  from prune_max_count_less [OF this assms(6,7),
      where cva = "\<lambda>a m. ab_val d (b[m := me]) opp a beta me opp" and best = "(- 2, None)"]
  show ?thesis
    unfolding ab_node_max(2) [OF assms(1-4)] mm_node_max(2) [OF assms(1-4)] assms(5)
    by (simp del: prune_max.simps)
qed

lemma count_less_min:
  assumes "valid_sides me opp" "length b = 9" "length (moves b) \<le> d" "terminal b = Inr False"
    and "moves b = m # ms" "alpha < beta"
    and "ab_cnt d (b[m := opp]) me alpha beta me opp < mm_cnt d (b[m := opp]) me me opp"
  shows "ab_cnt (Suc d) b opp alpha beta me opp < mm_cnt (Suc d) b opp me opp"
proof -
  let ?cka = "\<lambda>bt m. ab_cnt d (b[m := opp]) me alpha bt me opp"
  let ?ckm = "\<lambda>m. mm_cnt d (b[m := opp]) me me opp"
  from assms(1) have sides: "opp \<noteq> '' ''" by (simp add: valid_sides_def)
  have "\<forall>x \<in> set (m # ms). \<forall>bt. alpha < bt \<longrightarrow> ?cka bt x \<le> ?ckm x"
  proof (intro ballI allI impI)
    fix x bt
    assume "x \<in> set (m # ms)" "alpha < bt"
    then have "x \<in> set (moves b)" by (simp add: assms(5))
    from child_ok [OF assms(2,3) this sides] \<open>alpha < bt\<close>
      search_agree [OF assms(1), of "b[x := opp]" me d alpha bt]
    show "?cka bt x \<le> ?ckm x" by simp
  qed
  from prune_min_count_less [OF this assms(6,7),
      where cva = "\<lambda>bt m. ab_val d (b[m := opp]) me alpha bt me opp" and best = "(2, None)"]
  show ?thesis
    unfolding ab_node_min(2) [OF assms(1-4)] mm_node_min(2) [OF assms(1-4)] assms(5)
    by (simp del: prune_min.simps)
qed

text \<open>After the returned move the searching side can still force the returned value.\<close>

lemma minimax_move_forces:
  assumes "valid_sides me opp" "length b = 9" "length (moves b) \<le> d" "terminal b = Inr False"
    and "p = me \<or> p = opp"
  shows "\<exists>m \<in> set (moves b).
           fst (minimax (Suc d) b p me opp n) =
             Inr (mm_val d (b[m := p]) (if p = me then opp else me) me opp, Some m) \<and>
           can_force_ge me opp (mm_val d (b[m := p]) (if p = me then opp else me) me opp)
             (b[m := p]) (if p = me then opp else me)"
proof -
  from assms(1) have sides: "me \<noteq> '' ''" "opp \<noteq> '' ''" "me \<noteq> opp"
    by (simp_all add: valid_sides_def)
  from assms(5) show ?thesis
  proof
    assume p: "p = me"
    from minimax_first_max [OF assms(1-4), of n] obtain m where
      m: "m \<in> set (moves b)"
         "fst (minimax (Suc d) b me me opp n) = Inr (mm_val d (b[m := me]) opp me opp, Some m)"
      by blast
    from child_ok [OF assms(2,3) m(1) sides(1)]
      minimax_game_value [OF assms(1), of "b[m := me]" opp d]
    have "can_force_ge me opp (mm_val d (b[m := me]) opp me opp) (b[m := me]) opp"
      by (simp add: game_value_def)
    with m show ?thesis unfolding p by auto
  next
    assume p: "p = opp"
    from minimax_first_min [OF assms(1-4), of n] obtain m where
      m: "m \<in> set (moves b)"
         "fst (minimax (Suc d) b opp me opp n) = Inr (mm_val d (b[m := opp]) me me opp, Some m)"
      by blast
    from child_ok [OF assms(2,3) m(1) sides(2)]
      minimax_game_value [OF assms(1), of "b[m := opp]" me d]
    have "can_force_ge me opp (mm_val d (b[m := opp]) me me opp) (b[m := opp]) me"
      by (simp add: game_value_def)
    with m sides(3) show ?thesis unfolding p by auto
  qed
qed

section \<open>The empty board\<close>

lemma empty_board9:
  "empty_board = ['' '', '' '', '' '', '' '', '' '', '' '', '' '', '' '', '' '']"
  by (simp add: empty_board_def eval_nat_numeral)

lemma alphabeta_empty:
  assumes "valid_sides me opp"
  shows "alphabeta (Suc (Suc (Suc (Suc (Suc (Suc (Suc (Suc (Suc (Suc d))))))))))
           empty_board me (- 2) 2 me opp n = (Inr (0, Some 0), n + 18297)"
proof -
  let ?d = "Suc (Suc (Suc (Suc (Suc (Suc (Suc (Suc (Suc d))))))))"
  note s = sides_distinct [OF assms]
  have len: "length empty_board = 9" by (simp add: empty_board9)
  have mv: "moves empty_board = [0, 1, 2, 3, 4, 5, 6, 7, 8]"
    by (simp add: empty_board9 moves9)
  have le: "length (moves empty_board) \<le> ?d" by (simp add: mv)
  have nt: "terminal empty_board = Inr False" by (simp add: empty_board9 terminal9)
  have kids:
    "ab_val ?d [me, '' '', '' '', '' '', '' '', '' '', '' '', '' '', '' ''] opp (- 2) 2 me opp = 0"
    "ab_val ?d ['' '', me, '' '', '' '', '' '', '' '', '' '', '' '', '' ''] opp 0 2 me opp = 0"
    "ab_val ?d ['' '', '' '', me, '' '', '' '', '' '', '' '', '' '', '' ''] opp 0 2 me opp = 0"
    "ab_val ?d ['' '', '' '', '' '', me, '' '', '' '', '' '', '' '', '' ''] opp 0 2 me opp = 0"
    "ab_val ?d ['' '', '' '', '' '', '' '', me, '' '', '' '', '' '', '' ''] opp 0 2 me opp = 0"
    "ab_val ?d ['' '', '' '', '' '', '' '', '' '', me, '' '', '' '', '' ''] opp 0 2 me opp = 0"
    "ab_val ?d ['' '', '' '', '' '', '' '', '' '', '' '', me, '' '', '' ''] opp 0 2 me opp = 0"
    "ab_val ?d ['' '', '' '', '' '', '' '', '' '', '' '', '' '', me, '' ''] opp 0 2 me opp = 0"
    "ab_val ?d ['' '', '' '', '' '', '' '', '' '', '' '', '' '', '' '', me] opp 0 2 me opp = 0"
    "ab_cnt ?d [me, '' '', '' '', '' '', '' '', '' '', '' '', '' '', '' ''] opp (- 2) 2 me opp = 2338"
    "ab_cnt ?d ['' '', me, '' '', '' '', '' '', '' '', '' '', '' '', '' ''] opp 0 2 me opp = 1244"
    "ab_cnt ?d ['' '', '' '', me, '' '', '' '', '' '', '' '', '' '', '' ''] opp 0 2 me opp = 2428"
    "ab_cnt ?d ['' '', '' '', '' '', me, '' '', '' '', '' '', '' '', '' ''] opp 0 2 me opp = 626"
    "ab_cnt ?d ['' '', '' '', '' '', '' '', me, '' '', '' '', '' '', '' ''] opp 0 2 me opp = 610"
    "ab_cnt ?d ['' '', '' '', '' '', '' '', '' '', me, '' '', '' '', '' ''] opp 0 2 me opp = 1699"
    "ab_cnt ?d ['' '', '' '', '' '', '' '', '' '', '' '', me, '' '', '' ''] opp 0 2 me opp = 2993"
    "ab_cnt ?d ['' '', '' '', '' '', '' '', '' '', '' '', '' '', me, '' ''] opp 0 2 me opp = 3393"
    "ab_cnt ?d ['' '', '' '', '' '', '' '', '' '', '' '', '' '', '' '', me] opp 0 2 me opp = 2965"
    unfolding ab_val_def ab_cnt_def
      alphabeta_first_0 [OF assms] alphabeta_first_1 [OF assms] alphabeta_first_2 [OF assms]
      alphabeta_first_3 [OF assms] alphabeta_first_4 [OF assms] alphabeta_first_5 [OF assms]
      alphabeta_first_6 [OF assms] alphabeta_first_7 [OF assms] alphabeta_first_8 [OF assms]
    by simp_all
  show ?thesis
    unfolding alphabeta_node_max [OF assms len le nt] mv
    unfolding empty_board9
    by (simp only: prune_max.simps update9 kids value_order max_def if_True if_False
        fst_conv snd_conv) simp
qed

text \<open>On the empty board the pruned search visits fewer nodes, whichever side begins.\<close>

lemma empty_count_less_me:
  assumes "valid_sides me opp"
  shows "ab_cnt (Suc (Suc (Suc (Suc (Suc (Suc (Suc (Suc (Suc (Suc d))))))))))
           empty_board me (- 2) 2 me opp
         < mm_cnt (Suc (Suc (Suc (Suc (Suc (Suc (Suc (Suc (Suc (Suc d))))))))))
             empty_board me me opp"
proof -
  note s = sides_distinct [OF assms]
  let ?d5 = "Suc (Suc (Suc (Suc (Suc d))))"
  have c5: "ab_cnt ?d5 [me, opp, me, opp, me, '' '', '' '', '' '', '' ''] opp (- 2) 2 me opp
            < mm_cnt ?d5 [me, opp, me, opp, me, '' '', '' '', '' '', '' ''] opp me opp"
    unfolding ab_cnt_def mm_cnt_def alphabeta_fifth_me [OF assms] minimax_fifth_me [OF assms]
    by simp
  have c4: "ab_cnt (Suc ?d5) [me, opp, me, opp, '' '', '' '', '' '', '' '', '' ''] me (- 2) 2 me opp
            < mm_cnt (Suc ?d5) [me, opp, me, opp, '' '', '' '', '' '', '' '', '' ''] me me opp"
    by (rule count_less_max [OF assms, where m = 4 and ms = "[5, 6, 7, 8]"])
      (simp_all add: s terminal9 moves9 update9 c5)
  have c3: "ab_cnt (Suc (Suc ?d5)) [me, opp, me, '' '', '' '', '' '', '' '', '' '', '' ''] opp (- 2) 2 me opp
            < mm_cnt (Suc (Suc ?d5)) [me, opp, me, '' '', '' '', '' '', '' '', '' '', '' ''] opp me opp"
    by (rule count_less_min [OF assms, where m = 3 and ms = "[4, 5, 6, 7, 8]"])
      (simp_all add: s terminal9 moves9 update9 c4)
  have c2: "ab_cnt (Suc (Suc (Suc ?d5))) [me, opp, '' '', '' '', '' '', '' '', '' '', '' '', '' ''] me (- 2) 2 me opp
            < mm_cnt (Suc (Suc (Suc ?d5))) [me, opp, '' '', '' '', '' '', '' '', '' '', '' '', '' ''] me me opp"
    by (rule count_less_max [OF assms, where m = 2 and ms = "[3, 4, 5, 6, 7, 8]"])
      (simp_all add: s terminal9 moves9 update9 c3)
  have c1: "ab_cnt (Suc (Suc (Suc (Suc ?d5)))) [me, '' '', '' '', '' '', '' '', '' '', '' '', '' '', '' ''] opp (- 2) 2 me opp
            < mm_cnt (Suc (Suc (Suc (Suc ?d5)))) [me, '' '', '' '', '' '', '' '', '' '', '' '', '' '', '' ''] opp me opp"
    by (rule count_less_min [OF assms, where m = 1 and ms = "[2, 3, 4, 5, 6, 7, 8]"])
      (simp_all add: s terminal9 moves9 update9 c2)
  show ?thesis
    unfolding empty_board9
    by (rule count_less_max [OF assms, where m = 0 and ms = "[1, 2, 3, 4, 5, 6, 7, 8]"])
      (simp_all add: s terminal9 moves9 update9 c1)
qed

lemma empty_count_less_opp:
  assumes "valid_sides me opp"
  shows "ab_cnt (Suc (Suc (Suc (Suc (Suc (Suc (Suc (Suc (Suc (Suc d))))))))))
           empty_board opp (- 2) 2 me opp
         < mm_cnt (Suc (Suc (Suc (Suc (Suc (Suc (Suc (Suc (Suc (Suc d))))))))))
             empty_board opp me opp"
proof -
  note s = sides_distinct [OF assms]
  let ?d5 = "Suc (Suc (Suc (Suc (Suc d))))"
  have c5: "ab_cnt ?d5 [opp, me, opp, me, opp, '' '', '' '', '' '', '' ''] me (- 2) 2 me opp
            < mm_cnt ?d5 [opp, me, opp, me, opp, '' '', '' '', '' '', '' ''] me me opp"
    unfolding ab_cnt_def mm_cnt_def alphabeta_fifth_opp [OF assms] minimax_fifth_opp [OF assms]
    by simp
  have c4: "ab_cnt (Suc ?d5) [opp, me, opp, me, '' '', '' '', '' '', '' '', '' ''] opp (- 2) 2 me opp
            < mm_cnt (Suc ?d5) [opp, me, opp, me, '' '', '' '', '' '', '' '', '' ''] opp me opp"
    by (rule count_less_min [OF assms, where m = 4 and ms = "[5, 6, 7, 8]"])
      (simp_all add: s terminal9 moves9 update9 c5)
  have c3: "ab_cnt (Suc (Suc ?d5)) [opp, me, opp, '' '', '' '', '' '', '' '', '' '', '' ''] me (- 2) 2 me opp
            < mm_cnt (Suc (Suc ?d5)) [opp, me, opp, '' '', '' '', '' '', '' '', '' '', '' ''] me me opp"
    by (rule count_less_max [OF assms, where m = 3 and ms = "[4, 5, 6, 7, 8]"])
      (simp_all add: s terminal9 moves9 update9 c4)
  have c2: "ab_cnt (Suc (Suc (Suc ?d5))) [opp, me, '' '', '' '', '' '', '' '', '' '', '' '', '' ''] opp (- 2) 2 me opp
            < mm_cnt (Suc (Suc (Suc ?d5))) [opp, me, '' '', '' '', '' '', '' '', '' '', '' '', '' ''] opp me opp"
    by (rule count_less_min [OF assms, where m = 2 and ms = "[3, 4, 5, 6, 7, 8]"])
      (simp_all add: s terminal9 moves9 update9 c3)
  have c1: "ab_cnt (Suc (Suc (Suc (Suc ?d5)))) [opp, '' '', '' '', '' '', '' '', '' '', '' '', '' '', '' ''] me (- 2) 2 me opp
            < mm_cnt (Suc (Suc (Suc (Suc ?d5)))) [opp, '' '', '' '', '' '', '' '', '' '', '' '', '' '', '' ''] me me opp"
    by (rule count_less_max [OF assms, where m = 1 and ms = "[2, 3, 4, 5, 6, 7, 8]"])
      (simp_all add: s terminal9 moves9 update9 c2)
  show ?thesis
    unfolding empty_board9
    by (rule count_less_min [OF assms, where m = 0 and ms = "[1, 2, 3, 4, 5, 6, 7, 8]"])
      (simp_all add: s terminal9 moves9 update9 c1)
qed

lemma fuel_ten: "9 < d \<Longrightarrow> \<exists>d'. d = Suc (Suc (Suc (Suc (Suc (Suc (Suc (Suc (Suc (Suc d')))))))))"
  by (rule exI [of _ "d - 10"]) simp

section \<open>The properties of the specification\<close>

text \<open>
  In the theorems below a board has nine cells, \<open>me\<close> and \<open>opp\<close> are two valid sides, the
  player to move is one of them, and more calls may be nested than the board has empty
  cells (the interpreter allows a thousand; a game needs at most ten).
\<close>

text \<open>
  C1. For every board and every valid assignment of the two sides, the pruned search
  called with \<open>alpha\<close> below \<open>-1\<close> and \<open>beta\<close> above \<open>1\<close> returns the same pair of value and
  move as the exhaustive search for the same player to move, and both return a result.
\<close>

theorem search_equivalence:
  assumes "valid_sides me opp" "length b = 9" "p = me \<or> p = opp" "length (moves b) < d"
    and "alpha < - 1" "1 < beta"
  shows "fst (alphabeta d b p alpha beta me opp n) = fst (minimax d b p me opp n') \<and>
         (\<exists>r. fst (minimax d b p me opp n') = Inr r)"
proof -
  from minimax_total [OF assms(1-4)] obtain mv where
    "\<And>k. minimax d b p me opp k = (Inr (mm_val d b p me opp, mv), k + mm_cnt d b p me opp)"
    by blast
  from this [of n'] have "\<exists>r. fst (minimax d b p me opp n') = Inr r" by simp
  with search_equal [OF assms, of n n'] show ?thesis by simp
qed

theorem search_equivalence_witness:
  "valid_sides ''O'' ''X'' \<and>
   length [''X'', ''X'', '' '', ''O'', ''O'', '' '', '' '', '' '', '' ''] = 9 \<and>
   length (moves [''X'', ''X'', '' '', ''O'', ''O'', '' '', '' '', '' '', '' '']) < 10 \<and>
   fst (alphabeta 10 [''X'', ''X'', '' '', ''O'', ''O'', '' '', '' '', '' '', '' ''] ''O'' (- 2) 2
          ''O'' ''X'' 0) =
   fst (minimax 10 [''X'', ''X'', '' '', ''O'', ''O'', '' '', '' '', '' '', '' ''] ''O''
          ''O'' ''X'' 0)"
  using search_equivalence [where me = "''O''" and opp = "''X''" and p = "''O''" and d = 10
      and b = "[''X'', ''X'', '' '', ''O'', ''O'', '' '', '' '', '' '', '' '']"
      and alpha = "- 2" and beta = 2 and n = 0 and n' = 0]
  by (simp add: valid_sides_def moves9)

text \<open>
  C2. For every board, the value returned by the exhaustive search is the value of the
  position under best play of both sides: the searching side can force at least that
  utility and the opponent can hold it to at most that, and no other number has both
  properties. On an unfinished board the returned move is legal, and after it the
  searching side can still force at least the returned value whatever the opponent plays.
\<close>

theorem minimax_optimal:
  assumes "valid_sides me opp" "length b = 9" "p = me \<or> p = opp" "length (moves b) < d"
  shows "\<exists>v mv. fst (minimax d b p me opp n) = Inr (v, mv) \<and>
           game_value me opp b p v \<and>
           (\<forall>w. game_value me opp b p w \<longrightarrow> w = v) \<and>
           (terminal b = Inr False \<longrightarrow>
              (\<exists>m \<in> set (moves b). mv = Some m \<and>
                 can_force_ge me opp v (b[m := p]) (if p = me then opp else me)))"
proof -
  from assms(1) have ne: "me \<noteq> opp" by (simp add: valid_sides_def)
  from minimax_total [OF assms] obtain mv where
    "\<And>k. minimax d b p me opp k = (Inr (mm_val d b p me opp, mv), k + mm_cnt d b p me opp)"
    by blast
  from this [of n] have r: "fst (minimax d b p me opp n) = Inr (mm_val d b p me opp, mv)"
    by simp
  note gv = minimax_game_value [OF assms]
  have uniq: "\<forall>w. game_value me opp b p w \<longrightarrow> w = mm_val d b p me opp"
    using game_value_unique [OF ne _ gv] by blast
  have "\<exists>m \<in> set (moves b). mv = Some m \<and>
          can_force_ge me opp (mm_val d b p me opp) (b[m := p]) (if p = me then opp else me)"
    if nt: "terminal b = Inr False"
  proof -
    from assms(4) obtain d' where d: "d = Suc d'" by (cases d) auto
    with assms(4) have le: "length (moves b) \<le> d'" by simp
    from minimax_move_forces [OF assms(1,2) le nt assms(3), of n] r show ?thesis
      unfolding d by auto
  qed
  with r gv uniq show ?thesis by blast
qed

theorem minimax_optimal_witness:
  "valid_sides ''O'' ''X'' \<and>
   length (moves [''X'', ''X'', '' '', ''O'', ''O'', '' '', '' '', '' '', '' '']) < 10 \<and>
   terminal [''X'', ''X'', '' '', ''O'', ''O'', '' '', '' '', '' '', '' ''] = Inr False \<and>
   (\<exists>v mv. fst (minimax 10 [''X'', ''X'', '' '', ''O'', ''O'', '' '', '' '', '' '', '' ''] ''O''
                 ''O'' ''X'' 0) = Inr (v, mv) \<and>
      game_value ''O'' ''X'' [''X'', ''X'', '' '', ''O'', ''O'', '' '', '' '', '' '', '' ''] ''O'' v \<and>
      (\<exists>m \<in> set (moves [''X'', ''X'', '' '', ''O'', ''O'', '' '', '' '', '' '', '' '']).
         mv = Some m \<and>
         can_force_ge ''O'' ''X'' v
           ([''X'', ''X'', '' '', ''O'', ''O'', '' '', '' '', '' '', '' ''][m := ''O'']) ''X''))"
proof -
  let ?B = "[''X'', ''X'', '' '', ''O'', ''O'', '' '', '' '', '' '', '' '']"
  have h: "valid_sides ''O'' ''X''" "length ?B = 9" "''O'' = ''O'' \<or> ''O'' = ''X''"
    "length (moves ?B) < 10"
    by (simp_all add: valid_sides_def moves9)
  have nt: "terminal ?B = Inr False" by (simp add: terminal9)
  from minimax_optimal [OF h, of 0] nt h(1,4) show ?thesis by auto
qed

text \<open>
  C3. For every finished board and two different sides, the utility is \<open>+1\<close> exactly when
  the winning mark is the searching side, \<open>-1\<close> exactly when it is the opponent, and \<open>0\<close>
  exactly in the remaining case.
\<close>

theorem utility_correct:
  assumes "terminal b = Inr True" "me \<noteq> opp"
  shows "\<exists>u w. utility b me opp = Inr u \<and> winner b = Inr w \<and>
           (u = 1 \<longleftrightarrow> w = Some me) \<and> (u = - 1 \<longleftrightarrow> w = Some opp) \<and>
           (u = 0 \<longleftrightarrow> w \<noteq> Some me \<and> w \<noteq> Some opp)"
proof -
  from assms(1) obtain w where w: "winner b = Inr w"
    by (auto simp: terminal_def split: sum.splits)
  with assms(2) show ?thesis by (auto simp: utility_def)
qed

theorem utility_correct_witness:
  "terminal [''X'', ''X'', ''X'', ''O'', ''O'', '' '', '' '', '' '', '' ''] = Inr True \<and>
   ''O'' \<noteq> ''X'' \<and>
   utility [''X'', ''X'', ''X'', ''O'', ''O'', '' '', '' '', '' '', '' ''] ''O'' ''X'' = Inr (- 1) \<and>
   utility [''X'', ''X'', ''X'', ''O'', ''O'', '' '', '' '', '' '', '' ''] ''X'' ''O'' = Inr 1"
  using utility_correct [of "[''X'', ''X'', ''X'', ''O'', ''O'', '' '', '' '', '' '', '' '']"
      "''O''" "''X''"]
    utility_correct [of "[''X'', ''X'', ''X'', ''O'', ''O'', '' '', '' '', '' '', '' '']"
      "''X''" "''O''"]
  by (auto simp: terminal9 winner9)

text \<open>
  C4. On the empty board with the searching side to move, both searches return the value
  \<open>0\<close> (with move 0), and \<open>0\<close> is the value of the empty position under best play of both
  sides.
\<close>

theorem empty_board_draw:
  assumes "valid_sides me opp" "9 < d"
  shows "fst (minimax d empty_board me me opp n) = Inr (0, Some 0) \<and>
         fst (alphabeta d empty_board me (- 2) 2 me opp n') = Inr (0, Some 0) \<and>
         game_value me opp empty_board me 0"
proof -
  from fuel_ten [OF assms(2)] obtain d' where
    d: "d = Suc (Suc (Suc (Suc (Suc (Suc (Suc (Suc (Suc (Suc d')))))))))" ..
  have h: "length empty_board = 9" "me = me \<or> me = opp" "length (moves empty_board) < d"
    using assms(2) by (simp_all add: empty_board9 moves9)
  have ab: "fst (alphabeta d empty_board me (- 2) 2 me opp k) = Inr (0, Some 0)" for k
    unfolding d alphabeta_empty [OF assms(1)] by simp
  have mm: "fst (minimax d empty_board me me opp k) = Inr (0, Some 0)" for k
    using search_equal [OF assms(1) h, of "- 2" 2 k k] ab [of k] by simp
  from mm [of 0] have "mm_val d empty_board me me opp = 0"
    by (simp add: mm_val_def)
  with minimax_game_value [OF assms(1) h] have "game_value me opp empty_board me 0"
    by simp
  with mm [of n] ab [of n'] show ?thesis by simp
qed

theorem empty_board_draw_witness:
  "valid_sides ''X'' ''O'' \<and> (9::nat) < 10 \<and>
   fst (minimax 10 empty_board ''X'' ''X'' ''O'' 0) = Inr (0, Some 0) \<and>
   fst (alphabeta 10 empty_board ''X'' (- 2) 2 ''X'' ''O'' 0) = Inr (0, Some 0)"
  using empty_board_draw [of "''X''" "''O''" 10 0 0]
  by (simp add: valid_sides_def)

text \<open>
  C5. On every unfinished board both searches return the lowest-index move among those
  whose child has the best value: the legal moves are in ascending order, the returned
  move \<open>m\<close> is one of them, its child has the returned value, no child is better for the
  player to move, and every legal move whose child has that value has an index of at
  least \<open>m\<close>.
\<close>

theorem tie_break_lowest_index:
  assumes "valid_sides me opp" "length b = 9" "p = me \<or> p = opp" "length (moves b) \<le> d"
    and "terminal b = Inr False" "alpha < - 1" "1 < beta"
  shows "\<exists>v m. fst (minimax (Suc d) b p me opp n) = Inr (v, Some m) \<and>
           fst (alphabeta (Suc d) b p alpha beta me opp n') = Inr (v, Some m) \<and>
           sorted (moves b) \<and> m \<in> set (moves b) \<and>
           mm_val d (b[m := p]) (if p = me then opp else me) me opp = v \<and>
           (\<forall>x \<in> set (moves b).
              if p = me then mm_val d (b[x := p]) (if p = me then opp else me) me opp \<le> v
              else v \<le> mm_val d (b[x := p]) (if p = me then opp else me) me opp) \<and>
           (\<forall>x \<in> set (moves b).
              mm_val d (b[x := p]) (if p = me then opp else me) me opp = v \<longrightarrow> m \<le> x)"
proof -
  from assms(1) have ne: "me \<noteq> opp" by (simp add: valid_sides_def)
  from assms(4) have fuel: "length (moves b) < Suc d" by simp
  note eq = search_equal [OF assms(1,2,3) fuel assms(6,7), of n' n]
  from assms(3) show ?thesis
  proof
    assume p: "p = me"
    from minimax_first_max [OF assms(1,2,4,5), of n] obtain m where
      m: "m \<in> set (moves b)"
         "fst (minimax (Suc d) b me me opp n) = Inr (mm_val d (b[m := me]) opp me opp, Some m)"
         "\<forall>x \<in> set (moves b). mm_val d (b[x := me]) opp me opp \<le> mm_val d (b[m := me]) opp me opp"
         "\<forall>x \<in> set (moves b). x < m \<longrightarrow>
            mm_val d (b[x := me]) opp me opp < mm_val d (b[m := me]) opp me opp"
      by blast
    from m(4) have "\<forall>x \<in> set (moves b).
        mm_val d (b[x := me]) opp me opp = mm_val d (b[m := me]) opp me opp \<longrightarrow> m \<le> x"
      by (auto simp: not_less [symmetric])
    with m(1,2,3) eq moves_sorted [of b] show ?thesis
      unfolding p by auto
  next
    assume p: "p = opp"
    from minimax_first_min [OF assms(1,2,4,5), of n] obtain m where
      m: "m \<in> set (moves b)"
         "fst (minimax (Suc d) b opp me opp n) = Inr (mm_val d (b[m := opp]) me me opp, Some m)"
         "\<forall>x \<in> set (moves b). mm_val d (b[m := opp]) me me opp \<le> mm_val d (b[x := opp]) me me opp"
         "\<forall>x \<in> set (moves b). x < m \<longrightarrow>
            mm_val d (b[m := opp]) me me opp < mm_val d (b[x := opp]) me me opp"
      by blast
    from m(4) have "\<forall>x \<in> set (moves b).
        mm_val d (b[x := opp]) me me opp = mm_val d (b[m := opp]) me me opp \<longrightarrow> m \<le> x"
      by (auto simp: not_less [symmetric])
    with m(1,2,3) eq moves_sorted [of b] ne show ?thesis
      unfolding p by auto
  qed
qed

theorem tie_break_lowest_index_witness:
  "valid_sides ''O'' ''X'' \<and>
   length (moves [''X'', ''X'', '' '', ''O'', ''O'', '' '', '' '', '' '', '' '']) \<le> 9 \<and>
   terminal [''X'', ''X'', '' '', ''O'', ''O'', '' '', '' '', '' '', '' ''] = Inr False \<and>
   (\<exists>v m. fst (minimax (Suc 9) [''X'', ''X'', '' '', ''O'', ''O'', '' '', '' '', '' '', '' '']
                 ''O'' ''O'' ''X'' 0) = Inr (v, Some m) \<and>
       fst (alphabeta (Suc 9) [''X'', ''X'', '' '', ''O'', ''O'', '' '', '' '', '' '', '' '']
                 ''O'' (- 2) 2 ''O'' ''X'' 0) = Inr (v, Some m) \<and>
       (\<forall>x \<in> set (moves [''X'', ''X'', '' '', ''O'', ''O'', '' '', '' '', '' '', '' '']).
          mm_val 9 ([''X'', ''X'', '' '', ''O'', ''O'', '' '', '' '', '' '', '' ''][x := ''O''])
            ''X'' ''O'' ''X'' = v \<longrightarrow> m \<le> x))"
proof -
  let ?B = "[''X'', ''X'', '' '', ''O'', ''O'', '' '', '' '', '' '', '' '']"
  have h: "valid_sides ''O'' ''X''" "length ?B = 9" "''O'' = ''O'' \<or> ''O'' = ''X''"
    "length (moves ?B) \<le> 9" "terminal ?B = Inr False" "(- 2 :: int) < - 1" "(1 :: int) < 2"
    by (simp_all add: valid_sides_def moves9 terminal9)
  from tie_break_lowest_index [OF h, of 0 0] h(1,4,5) show ?thesis by auto
qed

text \<open>
  C6. On the board with X on 0 and 1 and O on 3 and 4, with O the searching side and to
  move, both searches return move 2 (with value \<open>+1\<close>), whenever at least six calls may
  be nested.
\<close>

theorem block_scenario:
  "fst (minimax (d + 6) [''X'', ''X'', '' '', ''O'', ''O'', '' '', '' '', '' '', '' ''] ''O''
          ''O'' ''X'' n) = Inr (1, Some 2) \<and>
   fst (alphabeta (d + 6) [''X'', ''X'', '' '', ''O'', ''O'', '' '', '' '', '' '', '' ''] ''O''
          (- 2) 2 ''O'' ''X'' n') = Inr (1, Some 2)"
proof -
  let ?B = "[''X'', ''X'', '' '', ''O'', ''O'', '' '', '' '', '' '', '' '']"
  have d: "d + 6 = Suc (Suc (Suc (Suc (Suc (Suc d)))))" by simp
  have h: "valid_sides ''O'' ''X''" "length ?B = 9" "''O'' = ''O'' \<or> ''O'' = ''X''"
    "length (moves ?B) < Suc (Suc (Suc (Suc (Suc (Suc d)))))"
    by (simp_all add: valid_sides_def moves9)
  show ?thesis
    unfolding d
    by (subst minimax_counter [OF h], subst alphabeta_counter [OF h])
      (simp add: minimax_block [OF h(1)] alphabeta_block [OF h(1)])
qed

text \<open>
  C7. For every board and valid assignment of the sides, the pruned search, whatever its
  bounds \<open>alpha < beta\<close>, visits at most as many nodes as the exhaustive search (both
  counters started at the same number), and on the empty board, called with its initial
  bounds, it visits strictly fewer.
\<close>

theorem pruning_visits_fewer:
  assumes "valid_sides me opp" "length b = 9" "p = me \<or> p = opp" "length (moves b) < d"
  shows "(\<forall>alpha beta. alpha < beta \<longrightarrow>
            snd (alphabeta d b p alpha beta me opp n) \<le> snd (minimax d b p me opp n)) \<and>
         (b = empty_board \<longrightarrow>
            snd (alphabeta d b p (- 2) 2 me opp n) < snd (minimax d b p me opp n))"
proof -
  have "snd (alphabeta d b p (- 2) 2 me opp n) < snd (minimax d b p me opp n)"
    if b: "b = empty_board"
  proof -
    from assms(4) have "9 < d" by (simp add: b empty_board9 moves9)
    from fuel_ten [OF this] obtain d' where
      d: "d = Suc (Suc (Suc (Suc (Suc (Suc (Suc (Suc (Suc (Suc d')))))))))" ..
    from assms(3) have "ab_cnt d b p (- 2) 2 me opp < mm_cnt d b p me opp"
      unfolding b d
      using empty_count_less_me [OF assms(1), of d'] empty_count_less_opp [OF assms(1), of d']
      by auto
    then have "snd (alphabeta d b p (- 2) 2 me opp 0) < snd (minimax d b p me opp 0)"
      by (simp add: ab_cnt_def mm_cnt_def)
    then show ?thesis
      by (subst alphabeta_counter [OF assms], subst minimax_counter [OF assms]) simp
  qed
  with count_le [OF assms] show ?thesis by blast
qed

theorem pruning_visits_fewer_witness:
  "valid_sides ''X'' ''O'' \<and> length empty_board = 9 \<and> length (moves empty_board) < 10 \<and>
   snd (alphabeta 10 empty_board ''X'' (- 2) 2 ''X'' ''O'' 0) <
   snd (minimax 10 empty_board ''X'' ''X'' ''O'' 0)"
proof -
  have h: "valid_sides ''X'' ''O''" "length empty_board = 9" "''X'' = ''X'' \<or> ''X'' = ''O''"
    "length (moves empty_board) < 10"
    by (simp_all add: valid_sides_def empty_board9 moves9)
  from pruning_visits_fewer [OF h, of 0] h(1,2,4) show ?thesis by simp
qed

text \<open>
  C8. Neither search changes the list it is given: in the model with a store of list
  objects, every object that exists before the call, the caller's board among them, is
  the same after the call, and the search returns what the search on the board's value
  returns.
\<close>

theorem search_keeps_board:
  assumes "board < length s"
  shows "(\<forall>a < length s. snd (snd (minimax_st d s board p me opp n)) ! a = s ! a) \<and>
         (\<forall>a < length s. snd (snd (alphabeta_st d s board p alpha beta me opp n)) ! a = s ! a) \<and>
         fst (minimax_st d s board p me opp n) = fst (minimax d (s ! board) p me opp n) \<and>
         fst (alphabeta_st d s board p alpha beta me opp n) =
           fst (alphabeta d (s ! board) p alpha beta me opp n)"
proof -
  from minimax_st_sim [OF assms, of d p me opp n] obtain s1 where
    "minimax_st d s board p me opp n =
       (fst (minimax d (s ! board) p me opp n), snd (minimax d (s ! board) p me opp n), s1)"
    "\<forall>a < length s. s1 ! a = s ! a"
    by blast
  moreover from alphabeta_st_sim [OF assms, of d p alpha beta me opp n] obtain s2 where
    "alphabeta_st d s board p alpha beta me opp n =
       (fst (alphabeta d (s ! board) p alpha beta me opp n),
        snd (alphabeta d (s ! board) p alpha beta me opp n), s2)"
    "\<forall>a < length s. s2 ! a = s ! a"
    by blast
  ultimately show ?thesis by simp
qed

theorem search_keeps_board_witness:
  "0 < length [[''X'', ''X'', '' '', ''O'', ''O'', '' '', '' '', '' '', '' '']] \<and>
   snd (snd (minimax_st 10 [[''X'', ''X'', '' '', ''O'', ''O'', '' '', '' '', '' '', '' '']] 0
               ''O'' ''O'' ''X'' 0)) ! 0 =
     [''X'', ''X'', '' '', ''O'', ''O'', '' '', '' '', '' '', '' ''] \<and>
   snd (snd (alphabeta_st 10 [[''X'', ''X'', '' '', ''O'', ''O'', '' '', '' '', '' '', '' '']] 0
               ''O'' (- 2) 2 ''O'' ''X'' 0)) ! 0 =
     [''X'', ''X'', '' '', ''O'', ''O'', '' '', '' '', '' '', '' '']"
  using search_keeps_board [of 0 "[[''X'', ''X'', '' '', ''O'', ''O'', '' '', '' '', '' '', '' '']]"
      10 "''O''" "''O''" "''X''" 0 "- 2" 2]
  by simp

text \<open>
  C9, as the code has it. On a finished board neither search signals an error: each
  returns the utility of the board together with \<open>None\<close> as the move, and counts one node.
\<close>

theorem terminal_board_result:
  assumes "terminal b = Inr True"
  shows "\<exists>u. utility b me opp = Inr u \<and>
           minimax (Suc d) b p me opp n = (Inr (u, None), n + 1) \<and>
           alphabeta (Suc d) b p alpha beta me opp n' = (Inr (u, None), n' + 1)"
  using minimax_terminal [OF assms, of me opp d p n]
    alphabeta_terminal [OF assms, of me opp d p alpha beta n']
  by auto

theorem terminal_board_result_witness:
  "terminal [''X'', ''O'', ''X'', ''X'', ''O'', ''O'', ''O'', ''X'', ''X''] = Inr True \<and>
   minimax (Suc 9) [''X'', ''O'', ''X'', ''X'', ''O'', ''O'', ''O'', ''X'', ''X''] ''O''
     ''O'' ''X'' 0 = (Inr (0, None), 1) \<and>
   alphabeta (Suc 9) [''X'', ''O'', ''X'', ''X'', ''O'', ''O'', ''O'', ''X'', ''X''] ''O''
     (- 2) 2 ''O'' ''X'' 0 = (Inr (0, None), 1)"
proof -
  let ?F = "[''X'', ''O'', ''X'', ''X'', ''O'', ''O'', ''O'', ''X'', ''X'']"
  have t: "terminal ?F = Inr True" by (simp add: terminal9)
  have u: "utility ?F ''O'' ''X'' = Inr 0" by (simp add: utility_def winner9)
  from terminal_board_result [OF t, of "''O''" "''X''" 9 "''O''" 0 "- 2" 2 0] t u
  show ?thesis by simp
qed

text \<open>
  The claim as the specification words it (a call on a finished board fails with an
  error) does not hold: on a full board without a line both searches return normally.
\<close>

theorem terminal_board_counterexample:
  "terminal [''X'', ''O'', ''X'', ''X'', ''O'', ''O'', ''O'', ''X'', ''X''] = Inr True \<and>
   \<not> isl (fst (minimax (Suc 9) [''X'', ''O'', ''X'', ''X'', ''O'', ''O'', ''O'', ''X'', ''X'']
                 ''O'' ''O'' ''X'' 0)) \<and>
   \<not> isl (fst (alphabeta (Suc 9) [''X'', ''O'', ''X'', ''X'', ''O'', ''O'', ''O'', ''X'', ''X'']
                 ''O'' (- 2) 2 ''O'' ''X'' 0))"
proof -
  let ?F = "[''X'', ''O'', ''X'', ''X'', ''O'', ''O'', ''O'', ''X'', ''X'']"
  have t: "terminal ?F = Inr True" by (simp add: terminal9)
  from minimax_terminal [OF t, of "''O''" "''X''" 9 "''O''" 0]
    alphabeta_terminal [OF t, of "''O''" "''X''" 9 "''O''" "- 2" 2 0] t
  show ?thesis by auto
qed

text \<open>
  C10. On every unfinished board both searches, the pruned one with any bounds, return a
  move that is not \<open>None\<close> but the index of an empty cell, one of the legal moves, and a
  value among \<open>-1\<close>, \<open>0\<close> and \<open>1\<close>.
\<close>

theorem search_returns_legal_move:
  assumes "valid_sides me opp" "length b = 9" "p = me \<or> p = opp" "length (moves b) < d"
    and "terminal b = Inr False"
  shows "\<exists>v m v' m'.
           fst (minimax d b p me opp n) = Inr (v, Some m) \<and>
           m \<in> set (moves b) \<and> m < 9 \<and> b ! m = '' '' \<and> v \<in> {- 1, 0, 1} \<and>
           fst (alphabeta d b p alpha beta me opp n') = Inr (v', Some m') \<and>
           m' \<in> set (moves b) \<and> m' < 9 \<and> b ! m' = '' '' \<and> v' \<in> {- 1, 0, 1}"
proof -
  have three: "x \<in> {- 1, 0, 1}" if "- 1 \<le> x" "x \<le> 1" for x :: int
    using that by auto
  from minimax_total [OF assms(1-4)] assms(5) obtain m where
    m: "\<And>k. minimax d b p me opp k =
          (Inr (mm_val d b p me opp, Some m), k + mm_cnt d b p me opp)"
       "- 1 \<le> mm_val d b p me opp" "mm_val d b p me opp \<le> 1" "m \<in> set (moves b)"
    by auto
  from alphabeta_total [OF assms(1-4), of alpha beta] assms(5) obtain m' where
    m': "\<And>k. alphabeta d b p alpha beta me opp k =
          (Inr (ab_val d b p alpha beta me opp, Some m'), k + ab_cnt d b p alpha beta me opp)"
       "- 1 \<le> ab_val d b p alpha beta me opp" "ab_val d b p alpha beta me opp \<le> 1"
       "m' \<in> set (moves b)"
    by auto
  from m(4) m'(4) assms(2) have "m < 9" "b ! m = '' ''" "m' < 9" "b ! m' = '' ''"
    by (simp_all add: moves_iff)
  with m(1) [of n] m'(1) [of n'] m(4) m'(4) three [OF m(2,3)] three [OF m'(2,3)]
  show ?thesis by simp
qed

theorem search_returns_legal_move_witness:
  "valid_sides ''O'' ''X'' \<and>
   length (moves [''X'', ''X'', '' '', ''O'', ''O'', '' '', '' '', '' '', '' '']) < 10 \<and>
   terminal [''X'', ''X'', '' '', ''O'', ''O'', '' '', '' '', '' '', '' ''] = Inr False \<and>
   (\<exists>v m v' m'.
      fst (minimax 10 [''X'', ''X'', '' '', ''O'', ''O'', '' '', '' '', '' '', '' ''] ''O''
             ''O'' ''X'' 0) = Inr (v, Some m) \<and>
      m \<in> set (moves [''X'', ''X'', '' '', ''O'', ''O'', '' '', '' '', '' '', '' '']) \<and>
      v \<in> {- 1, 0, 1} \<and>
      fst (alphabeta 10 [''X'', ''X'', '' '', ''O'', ''O'', '' '', '' '', '' '', '' ''] ''O''
             (- 2) 2 ''O'' ''X'' 0) = Inr (v', Some m') \<and>
      m' \<in> set (moves [''X'', ''X'', '' '', ''O'', ''O'', '' '', '' '', '' '', '' '']) \<and>
      v' \<in> {- 1, 0, 1})"
proof -
  let ?B = "[''X'', ''X'', '' '', ''O'', ''O'', '' '', '' '', '' '', '' '']"
  have h: "valid_sides ''O'' ''X''" "length ?B = 9" "''O'' = ''O'' \<or> ''O'' = ''X''"
    "length (moves ?B) < 10" "terminal ?B = Inr False"
    by (simp_all add: valid_sides_def moves9 terminal9)
  from search_returns_legal_move [OF h, of 0 "- 2" 2 0] h(1,4,5) show ?thesis by blast
qed

end
